theory Spec2Isabelle
  imports Main
begin

section \<open>Python text primitives used by the journal code\<close>

text \<open>
  The store is one text file. Its content is modelled as a \<open>string\<close>: a list of
  characters with code points below 256. Python integers are unbounded, so amounts are
  \<open>int\<close>. The primitives below are the library calls of \<^verbatim>\<open>main.py\<close>:
  \<^verbatim>\<open>str.startswith\<close>, \<^verbatim>\<open>in\<close> on strings, \<^verbatim>\<open>str.strip\<close>, \<^verbatim>\<open>str.split\<close> with and
  without a separator, \<^verbatim>\<open>str.join\<close>, \<^verbatim>\<open>str(int)\<close>, \<^verbatim>\<open>int(str)\<close> and
  \<^verbatim>\<open>file.readlines\<close> of a file opened in text mode.
\<close>

abbreviation LF :: char where "LF \<equiv> CHR 0x0A"
abbreviation CR :: char where "CR \<equiv> CHR 0x0D"

text \<open>The characters for which \<^verbatim>\<open>str.isspace\<close> holds, below code point 256.\<close>

definition is_space :: "char \<Rightarrow> bool" where
  "is_space c = (c \<in> set [CHR 0x09, CHR 0x0A, CHR 0x0B, CHR 0x0C, CHR 0x0D,
     CHR 0x1C, CHR 0x1D, CHR 0x1E, CHR 0x1F, CHR 0x20, CHR 0x85, CHR 0xA0])"

text \<open>\<^verbatim>\<open>s.startswith(p)\<close>\<close>

fun startswith :: "string \<Rightarrow> string \<Rightarrow> bool" where
  "startswith s [] = True"
| "startswith [] (p # ps) = False"
| "startswith (c # cs) (p # ps) = (c = p \<and> startswith cs ps)"

text \<open>\<^verbatim>\<open>sub in s\<close>: \<open>sub\<close> occurs in \<open>s\<close> as a contiguous substring.\<close>

fun contains :: "string \<Rightarrow> string \<Rightarrow> bool" where
  "contains sub [] = (sub = [])"
| "contains sub (c # cs) = (startswith (c # cs) sub \<or> contains sub cs)"

text \<open>\<^verbatim>\<open>s.strip()\<close>\<close>

definition strip :: "string \<Rightarrow> string" where
  "strip s = rev (dropWhile is_space (rev (dropWhile is_space s)))"

text \<open>\<^verbatim>\<open>s.split()\<close>: the maximal runs of characters that are not whitespace.\<close>

fun py_split :: "string \<Rightarrow> string list" where
  "py_split [] = []"
| "py_split (c # cs) =
     (if is_space c then py_split cs
      else (case cs of
              [] \<Rightarrow> [[c]]
            | d # _ \<Rightarrow>
                if is_space d then [c] # py_split cs
                else (case py_split cs of w # ws \<Rightarrow> (c # w) # ws | [] \<Rightarrow> [[c]])))"

text \<open>\<^verbatim>\<open>s.split(sep)\<close> for a separator of one character: empty fields are kept.\<close>

fun split_sep :: "char \<Rightarrow> string \<Rightarrow> string list" where
  "split_sep sep [] = [[]]"
| "split_sep sep (c # cs) =
     (if c = sep then [] # split_sep sep cs
      else (case split_sep sep cs of w # ws \<Rightarrow> (c # w) # ws | [] \<Rightarrow> [[c]]))"

text \<open>\<^verbatim>\<open>sep.join(xs)\<close>\<close>

fun join :: "string \<Rightarrow> string list \<Rightarrow> string" where
  "join sep [] = []"
| "join sep [x] = x"
| "join sep (x # y # ys) = x @ sep @ join sep (y # ys)"

text \<open>
  \<^verbatim>\<open>str(n)\<close> for an integer: decimal digits, with a leading minus sign below zero.
  Integers are unbounded; the interpreter's limit on the number of digits of a conversion
  is not modelled.
\<close>

definition digit_char :: "nat \<Rightarrow> char" where
  "digit_char d = ''0123456789'' ! d"

function str_nat :: "nat \<Rightarrow> string" where
  "str_nat n = (if n < 10 then [digit_char n] else str_nat (n div 10) @ [digit_char (n mod 10)])"
  by pat_completeness auto
termination
  by (relation "measure (\<lambda>n. n)") auto

declare str_nat.simps [simp del]

definition str_int :: "int \<Rightarrow> string" where
  "str_int i = (if i < 0 then CHR ''-'' # str_nat (nat (- i)) else str_nat (nat i))"

text \<open>
  \<^verbatim>\<open>int(s)\<close> for a string, base ten: surrounding whitespace is dropped, one sign is
  allowed, and the digits may be grouped by single underscores between digits.
  \<open>None\<close> stands for the \<^verbatim>\<open>ValueError\<close> Python raises on anything else.
  The whitespace \<^verbatim>\<open>int\<close> drops is narrower than that of \<^verbatim>\<open>str.strip\<close>: the separators
  U+001C to U+001F are not part of it (\<^verbatim>\<open>int('5\x1f')\<close> raises).
\<close>

definition is_int_space :: "char \<Rightarrow> bool" where
  "is_int_space c = (c \<in> set [CHR 0x09, CHR 0x0A, CHR 0x0B, CHR 0x0C, CHR 0x0D,
     CHR 0x20, CHR 0x85, CHR 0xA0])"

definition int_strip :: "string \<Rightarrow> string" where
  "int_strip s = rev (dropWhile is_int_space (rev (dropWhile is_int_space s)))"

definition is_digit :: "char \<Rightarrow> bool" where
  "is_digit c = (c \<in> set ''0123456789'')"

definition digit_val :: "char \<Rightarrow> nat" where
  "digit_val c = length (takeWhile (\<lambda>d. d \<noteq> c) ''0123456789'')"

fun int_digits :: "nat \<Rightarrow> string \<Rightarrow> nat option" where
  "int_digits acc [] = Some acc"
| "int_digits acc (c # cs) =
     (if is_digit c then int_digits (10 * acc + digit_val c) cs
      else if c = CHR ''_'' then
        (case cs of
           [] \<Rightarrow> None
         | d # _ \<Rightarrow> if is_digit d then int_digits acc cs else None)
      else None)"

definition int_unsigned :: "string \<Rightarrow> nat option" where
  "int_unsigned s =
     (case s of [] \<Rightarrow> None | d # _ \<Rightarrow> if is_digit d then int_digits 0 s else None)"

definition py_int :: "string \<Rightarrow> int option" where
  "py_int s =
     (case int_strip s of
        [] \<Rightarrow> None
      | c # cs \<Rightarrow>
          if c = CHR ''-'' then map_option (\<lambda>n. - int n) (int_unsigned cs)
          else if c = CHR ''+'' then map_option int (int_unsigned cs)
          else map_option int (int_unsigned (c # cs)))"

text \<open>
  \<^verbatim>\<open>f.readlines()\<close> of a file opened with \<^verbatim>\<open>open(path, "r")\<close>: text mode translates
  \<^verbatim>\<open>\r\n\<close> and a lone \<^verbatim>\<open>\r\<close> to \<^verbatim>\<open>\n\<close>, and every line keeps its terminator.
\<close>

fun universal_newlines :: "string \<Rightarrow> string" where
  "universal_newlines [] = []"
| "universal_newlines [c] = (if c = CR then [LF] else [c])"
| "universal_newlines (c # d # cs) =
     (if c = CR then
        (if d = LF then LF # universal_newlines cs else LF # universal_newlines (d # cs))
      else c # universal_newlines (d # cs))"

fun keep_lines :: "string \<Rightarrow> string list" where
  "keep_lines [] = []"
| "keep_lines (c # cs) =
     (if c = LF then [c] # keep_lines cs
      else (case keep_lines cs of l # ls \<Rightarrow> (c # l) # ls | [] \<Rightarrow> [[c]]))"

definition readlines :: "string \<Rightarrow> string list" where
  "readlines f = keep_lines (universal_newlines f)"

section \<open>The constants and classes of main.py\<close>

abbreviation BEGIN :: string where "BEGIN \<equiv> ''BEGIN''"
abbreviation WRITE :: string where "WRITE \<equiv> ''WRITE''"
abbreviation READ :: string where "READ \<equiv> ''READ''"
abbreviation COMMIT :: string where "COMMIT \<equiv> ''COMMIT''"
abbreviation ERROR :: string where "ERROR \<equiv> ''ERROR''"
abbreviation MOVE :: string where "MOVE \<equiv> ''mov''"
abbreviation WITHDRAW :: string where "WITHDRAW \<equiv> ''wit''"
abbreviation DEPOSIT :: string where "DEPOSIT \<equiv> ''dep''"
abbreviation ID_SEPARATOR :: char where "ID_SEPARATOR \<equiv> CHR ''_''"
abbreviation NEWLINE :: string where "NEWLINE \<equiv> [LF]"

text \<open>The exceptions the modelled code can raise.\<close>

datatype error = ValueError | TypeError | IndexError

text \<open>
  A timestamp is whatever the caller passes: \<^verbatim>\<open>time.time_ns()\<close> (an integer) in the
  program's own list of operations, a string when \<^verbatim>\<open>parse_op_from_id\<close> rebuilds an
  operation. The code only ever reads it through \<^verbatim>\<open>str(x)\<close>.
\<close>

datatype pyval = PyInt int | PyStr string

fun str :: "pyval \<Rightarrow> string" where
  "str (PyInt i) = str_int i"
| "str (PyStr s) = s"

text \<open>
  The three operation classes. The field \<open>amt\<close> holds \<^verbatim>\<open>int(amt)\<close>, as the
  constructors store it; account names are strings.
\<close>

datatype op =
    MoveOp (ts: pyval) (src: string) (dst: string) (amt: int)
  | WithdrawOp (ts: pyval) (dst: string) (amt: int)
  | DepositOp (ts: pyval) (dst: string) (amt: int)

text \<open>\<^verbatim>\<open>op.id()\<close>\<close>

fun id_op :: "op \<Rightarrow> string" where
  "id_op (MoveOp t s d a) = join [ID_SEPARATOR] [MOVE, str t, s, d, str_int a]"
| "id_op (WithdrawOp t d a) = join [ID_SEPARATOR] [WITHDRAW, str t, d, str_int a]"
| "id_op (DepositOp t d a) = join [ID_SEPARATOR] [DEPOSIT, str t, d, str_int a]"

text \<open>The four log line classes and their \<^verbatim>\<open>line()\<close> methods.\<close>

datatype logline =
    BeginLogLine string
  | WriteLogLine string int
  | ReadLogLine string int
  | CommitLogLine "string option"

fun line :: "logline \<Rightarrow> string" where
  "line (BeginLogLine oid) = BEGIN @ '' '' @ oid @ [LF]"
| "line (WriteLogLine d a) = WRITE @ '' '' @ d @ '' '' @ str_int a @ [LF]"
| "line (ReadLogLine d a) = READ @ '' '' @ d @ '' '' @ str_int a @ [LF]"
| "line (CommitLogLine err) =
     COMMIT @ (case err of None \<Rightarrow> [] | Some e \<Rightarrow> '' '' @ e) @ [LF]"

section \<open>DataStore\<close>

text \<open>\<^verbatim>\<open>DataStore.log\<close>: append the line's text to the file.\<close>

definition log :: "string \<Rightarrow> logline \<Rightarrow> string" where
  "log f l = f @ line l"

text \<open>
  \<^verbatim>\<open>DataStore.read\<close>: scan the lines backwards; a line that starts with \<^verbatim>\<open>WRITE\<close>
  must split into three tokens (the unpacking raises \<^verbatim>\<open>ValueError\<close> otherwise), and
  the amount of the first one whose account matches is returned through \<^verbatim>\<open>int\<close>.
\<close>

fun read_loop :: "string \<Rightarrow> string list \<Rightarrow> error + int" where
  "read_loop d [] = Inr 0"
| "read_loop d (l # ls) =
     (if startswith l WRITE then
        (case py_split l of
           [_, account, a] \<Rightarrow>
             if account = d then
               (case py_int a of None \<Rightarrow> Inl ValueError | Some n \<Rightarrow> Inr n)
             else read_loop d ls
         | _ \<Rightarrow> Inl ValueError)
      else read_loop d ls)"

definition read :: "string \<Rightarrow> string \<Rightarrow> error + int" where
  "read f d = read_loop d (rev (readlines f))"

text \<open>
  \<^verbatim>\<open>DataStore.already_committed\<close>: the flag \<open>found\<close> is
  \<^verbatim>\<open>found_begin_with_oid\<close>; the argument is \<^verbatim>\<open>op.id()\<close>.
\<close>

fun already_committed_loop :: "string \<Rightarrow> bool \<Rightarrow> string list \<Rightarrow> bool" where
  "already_committed_loop oid found [] = False"
| "already_committed_loop oid found (l # ls) =
     (let l' = strip l;
          found' = (found \<or> contains oid l')
      in if found' \<and> l' = COMMIT then True
         else already_committed_loop oid found' ls)"

definition already_committed :: "string \<Rightarrow> op \<Rightarrow> bool" where
  "already_committed f p = already_committed_loop (id_op p) False (readlines f)"

section \<open>The operations' handle methods\<close>

text \<open>
  \<open>handle p write_begin f\<close> runs \<^verbatim>\<open>p.handle(write_begin)\<close> on the file content
  \<open>f\<close>. It returns the content the call leaves behind and the exception it raised,
  if any: what was logged before a failing \<^verbatim>\<open>read\<close> stays in the file.
\<close>

definition insufficient :: "int \<Rightarrow> int \<Rightarrow> string" where
  "insufficient cur a =
     ERROR @ '': insufficient funds: '' @ str_int cur @ '' < '' @ str_int a"

fun handle :: "op \<Rightarrow> bool \<Rightarrow> string \<Rightarrow> string \<times> error option" where
  "handle (MoveOp t s d a) write_begin f =
     (if already_committed f (MoveOp t s d a) then (f, None)
      else
        let f1 = (if write_begin then log f (BeginLogLine (id_op (MoveOp t s d a))) else f)
        in case read f1 s of
             Inl e \<Rightarrow> (f1, Some e)
           | Inr cur \<Rightarrow>
               let f2 = log f1 (ReadLogLine s cur)
               in if cur < a then
                    (log f2 (CommitLogLine (Some (insufficient cur a))), None)
                  else
                    let f3 = log f2 (WriteLogLine s (cur - a))
                    in (case read f3 d of
                          Inl e \<Rightarrow> (f3, Some e)
                        | Inr cur' \<Rightarrow>
                            let f4 = log f3 (ReadLogLine d cur');
                                f5 = log f4 (WriteLogLine d (cur' + a))
                            in (log f5 (CommitLogLine None), None)))"
| "handle (WithdrawOp t d a) write_begin f =
     (if already_committed f (WithdrawOp t d a) then (f, None)
      else
        let f1 = (if write_begin then log f (BeginLogLine (id_op (WithdrawOp t d a))) else f)
        in case read f1 d of
             Inl e \<Rightarrow> (f1, Some e)
           | Inr cur \<Rightarrow>
               let f2 = log f1 (ReadLogLine d cur)
               in if cur < a then
                    (log f2 (CommitLogLine (Some (insufficient cur a))), None)
                  else
                    let f3 = log f2 (WriteLogLine d (cur - a))
                    in (log f3 (CommitLogLine None), None))"
| "handle (DepositOp t d a) write_begin f =
     (if already_committed f (DepositOp t d a) then (f, None)
      else
        let f1 = (if write_begin then log f (BeginLogLine (id_op (DepositOp t d a))) else f)
        in case read f1 d of
             Inl e \<Rightarrow> (f1, Some e)
           | Inr cur \<Rightarrow>
               let f2 = log f1 (ReadLogLine d cur);
                   f3 = log f2 (WriteLogLine d (cur + a))
               in (log f3 (CommitLogLine None), None))"

section \<open>Recovery\<close>

text \<open>
  \<^verbatim>\<open>DataStore.parse_op_from_id\<close>. The constructors receive the fields after the kind
  as positional arguments: a wrong number of them is a \<^verbatim>\<open>TypeError\<close>, and \<^verbatim>\<open>int(amt)\<close>
  on a field that is not a number is a \<^verbatim>\<open>ValueError\<close>.
\<close>

definition parse_op_from_id :: "string \<Rightarrow> error + op" where
  "parse_op_from_id oid =
     (if startswith oid MOVE then
        (case tl (split_sep ID_SEPARATOR oid) of
           [t, s, d, a] \<Rightarrow>
             (case py_int a of None \<Rightarrow> Inl ValueError | Some n \<Rightarrow> Inr (MoveOp (PyStr t) s d n))
         | _ \<Rightarrow> Inl TypeError)
      else if startswith oid WITHDRAW then
        (case tl (split_sep ID_SEPARATOR oid) of
           [t, d, a] \<Rightarrow>
             (case py_int a of None \<Rightarrow> Inl ValueError | Some n \<Rightarrow> Inr (WithdrawOp (PyStr t) d n))
         | _ \<Rightarrow> Inl TypeError)
      else if startswith oid DEPOSIT then
        (case tl (split_sep ID_SEPARATOR oid) of
           [t, d, a] \<Rightarrow>
             (case py_int a of None \<Rightarrow> Inl ValueError | Some n \<Rightarrow> Inr (DepositOp (PyStr t) d n))
         | _ \<Rightarrow> Inl TypeError)
      else Inl ValueError)"

text \<open>The loop of \<^verbatim>\<open>recover\<close> that finds the index of the last line starting with \<^verbatim>\<open>BEGIN\<close>.\<close>

fun last_begin_loop :: "nat option \<Rightarrow> nat \<Rightarrow> string list \<Rightarrow> nat option" where
  "last_begin_loop last_begin_idx idx [] = last_begin_idx"
| "last_begin_loop last_begin_idx idx (l # ls) =
     last_begin_loop (if startswith l BEGIN then Some idx else last_begin_idx) (Suc idx) ls"

definition last_begin :: "string list \<Rightarrow> nat option" where
  "last_begin lines = last_begin_loop None 0 lines"

text \<open>\<^verbatim>\<open>f.writelines([line+NEWLINE for line in lines])\<close> into a fresh file.\<close>

definition writelines :: "string list \<Rightarrow> string" where
  "writelines lines = concat (map (\<lambda>l. l @ NEWLINE) lines)"

text \<open>
  The truncate-and-replace step of \<^verbatim>\<open>recover\<close> (its lines 33 to 67): the lines up to
  and including the last \<^verbatim>\<open>BEGIN\<close> are written to the backup file, which is then moved
  over the store. The result is the content of the store after the move; with no
  \<^verbatim>\<open>BEGIN\<close> line the method returns before touching the file.
\<close>

definition truncate_and_replace :: "string \<Rightarrow> string" where
  "truncate_and_replace f =
     (case last_begin (readlines f) of
        None \<Rightarrow> f
      | Some last_begin_idx \<Rightarrow> writelines (take (last_begin_idx + 1) (readlines f)))"

text \<open>
  \<^verbatim>\<open>DataStore.recover\<close>. After the rewrite, \<^verbatim>\<open>lines[last_begin_idx].split()[1]\<close> raises
  \<^verbatim>\<open>IndexError\<close> when the line has fewer than two tokens; the replay runs on the
  rewritten file. The index is that of a line the loop has seen, so it is in range.
\<close>

definition recover :: "string \<Rightarrow> string \<times> error option" where
  "recover f =
     (case last_begin (readlines f) of
        None \<Rightarrow> (f, None)
      | Some last_begin_idx \<Rightarrow>
          let lines = take (last_begin_idx + 1) (readlines f);
              f' = writelines lines
          in (case py_split (lines ! last_begin_idx) of
                _ # oid # _ \<Rightarrow>
                  (case parse_op_from_id oid of
                     Inl e \<Rightarrow> (f', Some e)
                   | Inr p \<Rightarrow> handle p False f')
              | _ \<Rightarrow> (f', Some IndexError)))"

section \<open>The program's loop over its operations\<close>

text \<open>\<^verbatim>\<open>for op in ops: op.handle()\<close>; an exception ends the loop.\<close>

fun run_ops :: "op list \<Rightarrow> string \<Rightarrow> string \<times> error option" where
  "run_ops [] f = (f, None)"
| "run_ops (p # ps) f =
     (case handle p True f of
        (f', None) \<Rightarrow> run_ops ps f'
      | (f', Some e) \<Rightarrow> (f', Some e))"

section \<open>Well-formed journals, names and records\<close>

text \<open>
  The journal is a line format without quoting. The theorems below are about journals
  whose last line is terminated, account names that are one token (non-empty, no
  whitespace) and timestamps whose text has no line break: what the format of the
  journal lines can carry.
\<close>

definition one_line :: "string \<Rightarrow> bool" where
  "one_line s = (\<forall>c\<in>set s. c \<noteq> LF \<and> c \<noteq> CR)"

definition no_space :: "string \<Rightarrow> bool" where
  "no_space s = (\<forall>c\<in>set s. \<not> is_space c)"

definition is_token :: "string \<Rightarrow> bool" where
  "is_token s = (s \<noteq> [] \<and> no_space s)"

definition terminated :: "string \<Rightarrow> bool" where
  "terminated f = (f = [] \<or> last f = LF)"

text \<open>A line as \<open>readlines\<close> returns it from a terminated file: no line break but its final LF.\<close>

definition proper_line :: "string \<Rightarrow> bool" where
  "proper_line l = (\<exists>s. l = s @ [LF] \<and> one_line s)"

fun wf_line :: "logline \<Rightarrow> bool" where
  "wf_line (BeginLogLine oid) = one_line oid"
| "wf_line (WriteLogLine d a) = is_token d"
| "wf_line (ReadLogLine d a) = is_token d"
| "wf_line (CommitLogLine err) = (case err of None \<Rightarrow> True | Some e \<Rightarrow> one_line e)"

fun wf_op :: "op \<Rightarrow> bool" where
  "wf_op (MoveOp t s d a) = (one_line (str t) \<and> is_token s \<and> is_token d)"
| "wf_op (WithdrawOp t d a) = (one_line (str t) \<and> is_token d)"
| "wf_op (DepositOp t d a) = (one_line (str t) \<and> is_token d)"

text \<open>What a logged record does to the balances that \<open>read\<close> reports.\<close>

fun apply_line :: "logline \<Rightarrow> (string \<Rightarrow> error + int) \<Rightarrow> string \<Rightarrow> error + int" where
  "apply_line (WriteLogLine d n) r = r(d := Inr n)"
| "apply_line (BeginLogLine oid) r = r"
| "apply_line (ReadLogLine d n) r = r"
| "apply_line (CommitLogLine err) r = r"

text \<open>The records a handle call logs after its BEGIN, given the balances it starts from.\<close>

fun body :: "op \<Rightarrow> (string \<Rightarrow> error + int) \<Rightarrow> logline list \<times> error option" where
  "body (MoveOp t s d a) r =
     (case r s of
        Inl e \<Rightarrow> ([], Some e)
      | Inr cur \<Rightarrow>
          if cur < a then
            ([ReadLogLine s cur, CommitLogLine (Some (insufficient cur a))], None)
          else
            (case (r(s := Inr (cur - a))) d of
               Inl e \<Rightarrow> ([ReadLogLine s cur, WriteLogLine s (cur - a)], Some e)
             | Inr cur' \<Rightarrow>
                 ([ReadLogLine s cur, WriteLogLine s (cur - a),
                   ReadLogLine d cur', WriteLogLine d (cur' + a), CommitLogLine None], None)))"
| "body (WithdrawOp t d a) r =
     (case r d of
        Inl e \<Rightarrow> ([], Some e)
      | Inr cur \<Rightarrow>
          if cur < a then
            ([ReadLogLine d cur, CommitLogLine (Some (insufficient cur a))], None)
          else ([ReadLogLine d cur, WriteLogLine d (cur - a), CommitLogLine None], None))"
| "body (DepositOp t d a) r =
     (case r d of
        Inl e \<Rightarrow> ([], Some e)
      | Inr cur \<Rightarrow>
          ([ReadLogLine d cur, WriteLogLine d (cur + a), CommitLogLine None], None))"

text \<open>
  Names that \<^verbatim>\<open>parse_op_from_id\<close> can take apart again: no separator inside the
  fields of the id.
\<close>

definition no_sep :: "string \<Rightarrow> bool" where
  "no_sep s = (ID_SEPARATOR \<notin> set s)"

fun sep_free :: "op \<Rightarrow> bool" where
  "sep_free (MoveOp t s d a) = (no_sep (str t) \<and> no_sep s \<and> no_sep d)"
| "sep_free (WithdrawOp t d a) = (no_sep (str t) \<and> no_sep d)"
| "sep_free (DepositOp t d a) = (no_sep (str t) \<and> no_sep d)"

text \<open>The operation with its timestamp replaced by the text \<^verbatim>\<open>str\<close> gives for it.\<close>

fun with_text_ts :: "op \<Rightarrow> op" where
  "with_text_ts (MoveOp t s d a) = MoveOp (PyStr (str t)) s d a"
| "with_text_ts (WithdrawOp t d a) = WithdrawOp (PyStr (str t)) d a"
| "with_text_ts (DepositOp t d a) = DepositOp (PyStr (str t)) d a"

text \<open>The signed amount an operation applies to an account when it commits.\<close>

fun signed_amount :: "op \<Rightarrow> string \<Rightarrow> int" where
  "signed_amount (MoveOp t s d a) acct = (if acct = s then - a else 0) + (if acct = d then a else 0)"
| "signed_amount (WithdrawOp t d a) acct = (if acct = d then - a else 0)"
| "signed_amount (DepositOp t d a) acct = (if acct = d then a else 0)"

text \<open>
  An operation is successfully committed by its \<^verbatim>\<open>handle()\<close> call on journal \<open>f\<close> when
  the call returns, has appended to the journal, and the last line of the journal is
  then a COMMIT without error message.
\<close>

definition succeeded :: "op \<Rightarrow> string \<Rightarrow> bool" where
  "succeeded p f =
     (case handle p True f of
        (f', None) \<Rightarrow> f' \<noteq> f \<and> last (readlines f') = line (CommitLogLine None)
      | (f', Some e) \<Rightarrow> False)"

text \<open>The operations of a run that were successfully committed, in order.\<close>

fun committed_ops :: "op list \<Rightarrow> string \<Rightarrow> op list" where
  "committed_ops [] f = []"
| "committed_ops (p # ps) f =
     (if succeeded p f then [p] else []) @ committed_ops ps (fst (handle p True f))"

text \<open>
  Operations that recovery can replay from their BEGIN line: the id is one token and
  \<^verbatim>\<open>parse_op_from_id\<close> can take it apart.
\<close>

definition recoverable :: "op \<Rightarrow> bool" where
  "recoverable p = (wf_op p \<and> sep_free p \<and> no_space (str (ts p)))"

text \<open>
  The journal \<open>f1\<close>, which extends \<open>f\<close>, cut off after the first \<open>k\<close> of the records
  that were appended to \<open>f\<close>.
\<close>

definition cut_at :: "string \<Rightarrow> string \<Rightarrow> nat \<Rightarrow> string" where
  "cut_at f f1 k = f @ concat (take k (readlines (drop (length f) f1)))"

section \<open>Properties of the text primitives\<close>

subsection \<open>Tokens\<close>

lemma is_space_simps [simp]:
  "is_space (CHR '' '')" "is_space LF" "is_space CR" "is_space (CHR 0x0A)"
  by (simp_all add: is_space_def)

lemma no_space_one_line: "no_space s \<Longrightarrow> one_line s"
  by (fastforce simp: no_space_def one_line_def is_space_def)

lemma py_split_token:
  "w \<noteq> [] \<Longrightarrow> no_space w \<Longrightarrow> is_space d \<Longrightarrow> py_split (w @ d # r) = w # py_split r"
proof (induction w)
  case Nil
  then show ?case by simp
next
  case (Cons c w)
  show ?case
  proof (cases w)
    case Nil
    with Cons.prems show ?thesis by (simp add: no_space_def)
  next
    case (Cons c' w')
    with Cons.prems Cons.IH show ?thesis by (simp add: no_space_def)
  qed
qed

lemma py_split_last: "w \<noteq> [] \<Longrightarrow> no_space w \<Longrightarrow> py_split w = [w]"
proof (induction w)
  case Nil
  then show ?case by simp
next
  case (Cons c w)
  show ?case
  proof (cases w)
    case Nil
    with Cons.prems show ?thesis by (simp add: no_space_def)
  next
    case (Cons c' w')
    with Cons.prems Cons.IH show ?thesis by (simp add: no_space_def)
  qed
qed

lemma py_split_space [simp]: "is_space d \<Longrightarrow> py_split (d # r) = py_split r"
  by simp

lemma strip_no_space: "no_space s \<Longrightarrow> strip s = s"
proof -
  assume a: "no_space s"
  have "dropWhile is_space s = s"
    using a by (cases s) (auto simp: no_space_def)
  moreover have "dropWhile is_space (rev s) = rev s"
    using a by (cases "rev s") (auto simp: no_space_def)
  ultimately show ?thesis by (simp add: strip_def)
qed

subsection \<open>Decimal numerals\<close>

lemma digit_char_digit: "d < 10 \<Longrightarrow> is_digit (digit_char d)"
  by (auto simp: is_digit_def digit_char_def less_Suc_eq numeral_eq_Suc nth_Cons')

lemma digit_val_char: "d < 10 \<Longrightarrow> digit_val (digit_char d) = d"
  by (auto simp: digit_val_def digit_char_def less_Suc_eq numeral_eq_Suc nth_Cons')

lemma is_digit_not_space: "is_digit c \<Longrightarrow> \<not> is_space c"
  by (auto simp: is_digit_def is_space_def)

lemma is_digit_not_sep: "is_digit c \<Longrightarrow> c \<noteq> CHR ''_'' \<and> c \<noteq> CHR ''-'' \<and> c \<noteq> CHR ''+''"
  by (auto simp: is_digit_def)

lemma str_nat_digits: "\<forall>c\<in>set (str_nat n). is_digit c"
proof (induction n rule: str_nat.induct)
  case (1 n)
  show ?case
  proof (cases "n < 10")
    case True
    then show ?thesis by (simp add: str_nat.simps [of n] digit_char_digit)
  next
    case False
    with 1 show ?thesis by (simp add: str_nat.simps [of n] digit_char_digit)
  qed
qed

lemma str_nat_nonempty: "str_nat n \<noteq> []"
  by (simp add: str_nat.simps [of n])

lemma int_digits_append:
  "\<forall>c\<in>set xs. is_digit c \<Longrightarrow>
   int_digits acc (xs @ [c]) = (case int_digits acc xs of None \<Rightarrow> None | Some n \<Rightarrow> int_digits n [c])"
  by (induction xs arbitrary: acc) (auto simp: is_digit_not_sep)

lemma int_digits_str_nat: "int_digits 0 (str_nat n) = Some n"
proof (induction n rule: str_nat.induct)
  case (1 n)
  show ?case
  proof (cases "n < 10")
    case True
    then show ?thesis by (simp add: str_nat.simps [of n] digit_char_digit digit_val_char)
  next
    case False
    then have "int_digits 0 (str_nat (n div 10)) = Some (n div 10)" using 1 by simp
    with False show ?thesis
      by (simp add: str_nat.simps [of n] int_digits_append str_nat_digits digit_char_digit digit_val_char)
  qed
qed

lemma int_unsigned_str_nat: "int_unsigned (str_nat n) = Some n"
proof (cases "str_nat n")
  case Nil
  then show ?thesis using str_nat_nonempty by simp
next
  case (Cons d ds)
  then have "is_digit d" using str_nat_digits [of n] by simp
  with Cons show ?thesis using int_digits_str_nat [of n] by (simp add: int_unsigned_def)
qed

lemma str_nat_no_space: "no_space (str_nat n)"
  using str_nat_digits [of n] is_digit_not_space by (auto simp: no_space_def)

lemma str_int_no_space: "no_space (str_int i)"
proof -
  have "\<not> is_space (CHR ''-'')" by (simp add: is_space_def)
  then show ?thesis
    using str_nat_no_space by (simp add: str_int_def no_space_def)
qed

lemma str_int_nonempty: "str_int i \<noteq> []"
  by (simp add: str_int_def str_nat_nonempty)

lemma str_int_token: "is_token (str_int i)"
  by (simp add: is_token_def str_int_no_space str_int_nonempty)

lemma str_int_no_sep: "CHR ''_'' \<notin> set (str_int i)"
  using str_nat_digits by (auto simp: str_int_def dest: is_digit_not_sep)

lemma is_int_space_is_space: "is_int_space c \<Longrightarrow> is_space c"
  by (auto simp: is_int_space_def is_space_def)

lemma int_strip_no_space: "no_space s \<Longrightarrow> int_strip s = s"
proof -
  assume a: "no_space s"
  then have n: "\<forall>c\<in>set s. \<not> is_int_space c"
    using is_int_space_is_space by (auto simp: no_space_def)
  then have "dropWhile is_int_space s = s" by (cases s) auto
  moreover from n have "\<forall>c\<in>set (rev s). \<not> is_int_space c" by simp
  then have "dropWhile is_int_space (rev s) = rev s" by (cases "rev s") auto
  ultimately show ?thesis by (simp add: int_strip_def)
qed

lemma py_int_examples:
  "py_int [CHR ''5'', CHR 0x1F] = None" "py_int '' 12 '' = Some 12" "py_int ''-1_205'' = Some (- 1205)"
  "py_int ''1__2'' = None" "py_int ''_1'' = None" "py_int ''+007'' = Some 7"
  by (code_simp, code_simp, code_simp, code_simp, code_simp, code_simp)

lemma py_int_str_int: "py_int (str_int i) = Some i"
proof (cases "i < 0")
  case True
  then show ?thesis
    by (simp add: py_int_def int_strip_no_space str_int_no_space)
       (simp add: str_int_def int_unsigned_str_nat)
next
  case False
  obtain d ds where ds: "str_nat (nat i) = d # ds"
    using str_nat_nonempty [of "nat i"] by (cases "str_nat (nat i)") auto
  then have "is_digit d" using str_nat_digits [of "nat i"] by simp
  then have "d \<noteq> CHR ''-''" "d \<noteq> CHR ''+''" by (auto dest: is_digit_not_sep)
  moreover have "int_unsigned (d # ds) = Some (nat i)"
    using int_unsigned_str_nat [of "nat i"] ds by simp
  moreover have "int_strip (str_int i) = d # ds"
    using False ds int_strip_no_space [OF str_int_no_space, of i] by (simp add: str_int_def)
  ultimately show ?thesis using False by (simp add: py_int_def)
qed


subsection \<open>Lines\<close>

lemma universal_newlines_id: "CR \<notin> set s \<Longrightarrow> universal_newlines s = s"
  by (induction s rule: universal_newlines.induct) auto

lemma universal_newlines_append:
  "f = [] \<or> last f \<noteq> CR \<Longrightarrow>
   universal_newlines (f @ g) = universal_newlines f @ universal_newlines g"
proof (induction f rule: universal_newlines.induct)
  case 1
  then show ?case by simp
next
  case (2 c)
  then show ?case by (cases g) auto
next
  case (3 c d cs)
  then show ?case by (auto split: if_splits)
qed

lemma universal_newlines_Nil [simp]: "universal_newlines f = [] \<longleftrightarrow> f = []"
  by (induction f rule: universal_newlines.induct) auto

lemma universal_newlines_last:
  "f \<noteq> [] \<Longrightarrow> last f = LF \<Longrightarrow> last (universal_newlines f) = LF"
  by (induction f rule: universal_newlines.induct) (auto split: if_splits)

lemma universal_newlines_terminated:
  "terminated f \<Longrightarrow> terminated (universal_newlines f)"
  using universal_newlines_last by (auto simp: terminated_def)

lemma universal_newlines_no_CR: "CR \<notin> set (universal_newlines f)"
  by (induction f rule: universal_newlines.induct) auto

lemma keep_lines_append:
  "terminated a \<Longrightarrow> keep_lines (a @ b) = keep_lines a @ keep_lines b"
proof (induction a)
  case Nil
  then show ?case by simp
next
  case (Cons c a)
  show ?case
  proof (cases "a = []")
    case True
    with Cons.prems show ?thesis by (simp add: terminated_def)
  next
    case False
    with Cons.prems have "terminated a" by (simp add: terminated_def)
    with Cons.IH have ih: "keep_lines (a @ b) = keep_lines a @ keep_lines b" by simp
    from False have "keep_lines a \<noteq> []" by (cases a) (auto split: list.splits)
    with ih show ?thesis by (auto split: list.splits)
  qed
qed

lemma keep_lines_one: "LF \<notin> set s \<Longrightarrow> keep_lines (s @ [LF]) = [s @ [LF]]"
  by (induction s) auto

lemma readlines_append:
  "terminated f \<Longrightarrow> readlines (f @ g) = readlines f @ readlines g"
proof -
  assume t: "terminated f"
  then have "f = [] \<or> last f \<noteq> CR" by (auto simp: terminated_def)
  then show ?thesis
    using t by (simp add: readlines_def universal_newlines_append
        universal_newlines_terminated keep_lines_append)
qed

lemma readlines_one: "one_line s \<Longrightarrow> readlines (s @ [LF]) = [s @ [LF]]"
proof -
  assume o: "one_line s"
  then have "CR \<notin> set (s @ [LF])" "LF \<notin> set s" by (auto simp: one_line_def)
  then show ?thesis by (simp add: readlines_def universal_newlines_id keep_lines_one)
qed

lemma readlines_Nil [simp]: "readlines [] = []"
  by (simp add: readlines_def)

lemma keep_lines_proper:
  "terminated f \<Longrightarrow> l \<in> set (keep_lines f) \<Longrightarrow> \<exists>s. l = s @ [LF] \<and> LF \<notin> set s"
proof (induction f arbitrary: l)
  case Nil
  then show ?case by simp
next
  case (Cons c f)
  show ?case
  proof (cases "c = LF")
    case True
    show ?thesis
    proof (cases "f = []")
      case True
      with \<open>c = LF\<close> Cons.prems show ?thesis by simp
    next
      case False
      with Cons.prems have "terminated f" by (simp add: terminated_def)
      with Cons.IH Cons.prems True show ?thesis by auto
    qed
  next
    case False
    with Cons.prems have fne: "f \<noteq> []" by (auto simp: terminated_def)
    with Cons.prems have t: "terminated f" by (simp add: terminated_def)
    from fne obtain l0 ls where k: "keep_lines f = l0 # ls"
      by (cases f; cases "keep_lines f") (auto split: list.splits if_splits)
    with Cons.prems False have "l = c # l0 \<or> l \<in> set ls" by auto
    then show ?thesis
    proof
      assume "l = c # l0"
      moreover from Cons.IH [OF t, of l0] k obtain s where "l0 = s @ [LF]" "LF \<notin> set s" by auto
      ultimately show ?thesis using False by (intro exI [of _ "c # s"]) auto
    next
      assume "l \<in> set ls"
      with Cons.IH [OF t, of l] k show ?thesis by simp
    qed
  qed
qed

lemma set_keep_lines: "l \<in> set (keep_lines f) \<Longrightarrow> set l \<subseteq> set f"
proof (induction f arbitrary: l)
  case Nil
  then show ?case by simp
next
  case (Cons c f)
  then show ?case by (fastforce split: if_splits list.splits)
qed

lemma readlines_proper: "terminated f \<Longrightarrow> l \<in> set (readlines f) \<Longrightarrow> proper_line l"
proof -
  assume t: "terminated f" and l: "l \<in> set (readlines f)"
  from t have "terminated (universal_newlines f)" by (rule universal_newlines_terminated)
  with l obtain s where s: "l = s @ [LF]" "LF \<notin> set s"
    using keep_lines_proper by (auto simp: readlines_def)
  have "CR \<notin> set l"
    using l set_keep_lines universal_newlines_no_CR by (fastforce simp: readlines_def)
  with s show ?thesis by (auto simp: proper_line_def one_line_def)
qed

lemma proper_line_terminated: "proper_line l \<Longrightarrow> terminated (f @ l)"
  by (auto simp: proper_line_def terminated_def)

lemma readlines_proper_line: "proper_line l \<Longrightarrow> readlines l = [l]"
  by (auto simp: proper_line_def readlines_one)

lemma readlines_snoc:
  "terminated f \<Longrightarrow> proper_line l \<Longrightarrow> readlines (f @ l) = readlines f @ [l]"
  by (simp add: readlines_append readlines_proper_line)


subsection \<open>Log lines\<close>

lemma one_line_append [simp]: "one_line (a @ b) \<longleftrightarrow> one_line a \<and> one_line b"
  by (auto simp: one_line_def)

lemma one_line_Cons [simp]: "one_line (c # s) \<longleftrightarrow> c \<noteq> LF \<and> c \<noteq> CR \<and> one_line s"
  by (auto simp: one_line_def)

lemma one_line_Nil [simp]: "one_line []"
  by (simp add: one_line_def)

lemma one_line_str_int [simp]: "one_line (str_int i)"
  by (simp add: no_space_one_line str_int_no_space)

lemma is_token_one_line: "is_token s \<Longrightarrow> one_line s"
  by (simp add: is_token_def no_space_one_line)

lemma one_line_insufficient [simp]: "one_line (insufficient c a)"
  by (simp add: insufficient_def)

lemma one_line_id_op: "wf_op p \<Longrightarrow> one_line (id_op p)"
  by (cases p) (simp_all add: is_token_one_line)

lemma proper_line_line: "wf_line l \<Longrightarrow> proper_line (line l)"
proof (cases l)
  case (BeginLogLine oid)
  assume "wf_line l"
  with BeginLogLine have "one_line (''BEGIN '' @ oid)" by simp
  then show ?thesis unfolding proper_line_def using BeginLogLine
    by (intro exI [of _ "''BEGIN '' @ oid"]) simp
next
  case (WriteLogLine d a)
  assume "wf_line l"
  with WriteLogLine have "one_line (''WRITE '' @ d @ '' '' @ str_int a)"
    by (simp add: is_token_one_line)
  then show ?thesis unfolding proper_line_def using WriteLogLine
    by (intro exI [of _ "''WRITE '' @ d @ '' '' @ str_int a"]) simp
next
  case (ReadLogLine d a)
  assume "wf_line l"
  with ReadLogLine have "one_line (''READ '' @ d @ '' '' @ str_int a)"
    by (simp add: is_token_one_line)
  then show ?thesis unfolding proper_line_def using ReadLogLine
    by (intro exI [of _ "''READ '' @ d @ '' '' @ str_int a"]) simp
next
  case (CommitLogLine err)
  assume w: "wf_line l"
  show ?thesis
  proof (cases err)
    case None
    with CommitLogLine show ?thesis unfolding proper_line_def
      by (intro exI [of _ "''COMMIT''"]) simp
  next
    case (Some e)
    with w CommitLogLine have "one_line (''COMMIT '' @ e)" by simp
    then show ?thesis unfolding proper_line_def using CommitLogLine Some
      by (intro exI [of _ "''COMMIT '' @ e"]) simp
  qed
qed

lemma terminated_log [simp]: "terminated (log f l)"
  by (cases l) (simp_all add: log_def terminated_def)

lemma terminated_Nil [simp]: "terminated []"
  by (simp add: terminated_def)

lemma readlines_log:
  "terminated f \<Longrightarrow> wf_line l \<Longrightarrow> readlines (log f l) = readlines f @ [line l]"
  by (simp add: log_def readlines_snoc proper_line_line)

lemma py_split_write:
  "is_token d \<Longrightarrow> py_split (line (WriteLogLine d a)) = [WRITE, d, str_int a]"
proof -
  assume d: "is_token d"
  have w: "no_space ''WRITE''" by (simp add: no_space_def is_space_def)
  have 1: "py_split (str_int a @ [LF]) = [str_int a]"
    using py_split_token [of "str_int a" LF "[]"] str_int_token [of a]
    by (simp add: is_token_def)
  have 2: "py_split (d @ CHR '' '' # str_int a @ [LF]) = d # py_split (str_int a @ [LF])"
    using d by (intro py_split_token) (simp_all add: is_token_def)
  have 3: "py_split (''WRITE'' @ CHR '' '' # d @ CHR '' '' # str_int a @ [LF])
        = ''WRITE'' # py_split (d @ CHR '' '' # str_int a @ [LF])"
    using w by (intro py_split_token) simp_all
  from 1 2 3 show ?thesis by simp
qed

subsection \<open>Reading after a logged line\<close>

lemma read_log:
  "terminated f \<Longrightarrow> wf_line l \<Longrightarrow> read (log f l) = apply_line l (read f)"
proof (rule ext)
  fix acct
  assume t: "terminated f" and w: "wf_line l"
  then have r: "read (log f l) acct = read_loop acct (line l # rev (readlines f))"
    by (simp add: read_def readlines_log)
  show "read (log f l) acct = apply_line l (read f) acct"
  proof (cases l)
    case (BeginLogLine oid)
    with r show ?thesis by (simp add: read_def)
  next
    case (WriteLogLine d a)
    with w have "is_token d" by simp
    then have "py_split (line (WriteLogLine d a)) = [WRITE, d, str_int a]"
      by (rule py_split_write)
    moreover have "startswith (line (WriteLogLine d a)) WRITE" by simp
    ultimately show ?thesis using r WriteLogLine
      by (simp add: read_def py_int_str_int del: line.simps)
  next
    case (ReadLogLine d a)
    with r show ?thesis by (simp add: read_def)
  next
    case (CommitLogLine err)
    with r show ?thesis by (simp add: read_def)
  qed
qed


subsection \<open>handle in terms of body\<close>

lemma read_log_begin:
  "terminated f \<Longrightarrow> one_line oid \<Longrightarrow> read (log f (BeginLogLine oid)) = read f"
  by (simp add: read_log)

lemma read_log_read:
  "terminated f \<Longrightarrow> is_token d \<Longrightarrow> read (log f (ReadLogLine d n)) = read f"
  by (simp add: read_log)

lemma read_log_write:
  "terminated f \<Longrightarrow> is_token d \<Longrightarrow> read (log f (WriteLogLine d n)) = (read f)(d := Inr n)"
  by (simp add: read_log)

lemma read_begin_opt:
  "terminated f \<Longrightarrow> wf_op p \<Longrightarrow>
   read (if wb then log f (BeginLogLine (id_op p)) else f) = read f"
  by (simp add: read_log_begin one_line_id_op)

lemma terminated_begin_opt:
  "terminated f \<Longrightarrow> terminated (if wb then log f (BeginLogLine oid) else f)"
  by simp

lemma handle_body:
  assumes "wf_op p" and "terminated f" and "\<not> already_committed f p"
  shows "handle p wb f =
    (foldl log f ((if wb then [BeginLogLine (id_op p)] else []) @ fst (body p (read f))),
     snd (body p (read f)))"
proof (cases p)
  case (MoveOp t s d a)
  let ?f1 = "if wb then log f (BeginLogLine (id_op p)) else f"
  have t1: "terminated ?f1" using assms by simp
  have r1: "read ?f1 = read f" using assms(2,1) by (rule read_begin_opt)
  from assms MoveOp have tok: "is_token s" "is_token d" by simp_all
  have h: "handle p wb f =
     (case read ?f1 s of
             Inl e \<Rightarrow> (?f1, Some e)
           | Inr cur \<Rightarrow>
               let f2 = log ?f1 (ReadLogLine s cur)
               in if cur < a then
                    (log f2 (CommitLogLine (Some (insufficient cur a))), None)
                  else
                    let f3 = log f2 (WriteLogLine s (cur - a))
                    in (case read f3 d of
                          Inl e \<Rightarrow> (f3, Some e)
                        | Inr cur' \<Rightarrow>
                            let f4 = log f3 (ReadLogLine d cur');
                                f5 = log f4 (WriteLogLine d (cur' + a))
                            in (log f5 (CommitLogLine None), None)))"
    using assms(3) unfolding MoveOp by (simp add: Let_def del: id_op.simps)
  show ?thesis
  proof (cases "read f s")
    case (Inl e)
    with h r1 MoveOp show ?thesis by (cases wb) simp_all
  next
    case (Inr cur)
    show ?thesis
    proof (cases "cur < a")
      case True
      with h r1 Inr MoveOp show ?thesis by (cases wb) (simp_all add: Let_def)
    next
      case False
      let ?f3 = "log (log ?f1 (ReadLogLine s cur)) (WriteLogLine s (cur - a))"
      have r3: "read ?f3 = (read f)(s := Inr (cur - a))"
        using t1 r1 tok by (simp add: read_log_write read_log_read del: log_def)
      show ?thesis
      proof (cases "((read f)(s := Inr (cur - a))) d")
        case (Inl e)
        with h r1 r3 Inr False MoveOp show ?thesis
          by (cases wb) (simp_all add: Let_def)
      next
        case (Inr cur')
        with h r1 r3 \<open>read f s = Inr cur\<close> False MoveOp show ?thesis
          by (cases wb) (simp_all add: Let_def)
      qed
    qed
  qed
next
  case (WithdrawOp t d a)
  let ?f1 = "if wb then log f (BeginLogLine (id_op p)) else f"
  have r1: "read ?f1 = read f" using assms(2,1) by (rule read_begin_opt)
  have h: "handle p wb f =
     (case read ?f1 d of
             Inl e \<Rightarrow> (?f1, Some e)
           | Inr cur \<Rightarrow>
               let f2 = log ?f1 (ReadLogLine d cur)
               in if cur < a then
                    (log f2 (CommitLogLine (Some (insufficient cur a))), None)
                  else
                    let f3 = log f2 (WriteLogLine d (cur - a))
                    in (log f3 (CommitLogLine None), None))"
    using assms(3) unfolding WithdrawOp by (simp add: Let_def del: id_op.simps)
  show ?thesis
  proof (cases "read f d")
    case (Inl e)
    with h r1 WithdrawOp show ?thesis by (cases wb) simp_all
  next
    case (Inr cur)
    with h r1 WithdrawOp show ?thesis by (cases wb) (simp_all add: Let_def)
  qed
next
  case (DepositOp t d a)
  let ?f1 = "if wb then log f (BeginLogLine (id_op p)) else f"
  have r1: "read ?f1 = read f" using assms(2,1) by (rule read_begin_opt)
  have h: "handle p wb f =
     (case read ?f1 d of
             Inl e \<Rightarrow> (?f1, Some e)
           | Inr cur \<Rightarrow>
               let f2 = log ?f1 (ReadLogLine d cur);
                   f3 = log f2 (WriteLogLine d (cur + a))
               in (log f3 (CommitLogLine None), None))"
    using assms(3) unfolding DepositOp by (simp add: Let_def del: id_op.simps)
  show ?thesis
  proof (cases "read f d")
    case (Inl e)
    with h r1 DepositOp show ?thesis by (cases wb) simp_all
  next
    case (Inr cur)
    with h r1 DepositOp show ?thesis by (cases wb) (simp_all add: Let_def)
  qed
qed

subsection \<open>Several logged lines\<close>

lemma foldl_log: "foldl log f ls = f @ concat (map line ls)"
  by (induction ls arbitrary: f) (simp_all add: log_def)

lemma terminated_foldl_log: "terminated f \<Longrightarrow> terminated (foldl log f ls)"
  by (induction ls arbitrary: f) simp_all

lemma read_foldl_log:
  "terminated f \<Longrightarrow> \<forall>l\<in>set ls. wf_line l \<Longrightarrow>
   read (foldl log f ls) = foldl (\<lambda>r l. apply_line l r) (read f) ls"
  by (induction ls arbitrary: f) (simp_all add: read_log)

lemma readlines_foldl_log:
  "terminated f \<Longrightarrow> \<forall>l\<in>set ls. wf_line l \<Longrightarrow>
   readlines (foldl log f ls) = readlines f @ map line ls"
  by (induction ls arbitrary: f) (simp_all add: readlines_log)

lemma wf_body: "wf_op p \<Longrightarrow> l \<in> set (fst (body p r)) \<Longrightarrow> wf_line l"
  by (cases p) (auto split: sum.splits if_splits)

lemma wf_begin: "wf_op p \<Longrightarrow> wf_line (BeginLogLine (id_op p))"
  by (simp add: one_line_id_op)

section \<open>Insufficient funds\<close>

text \<open>
  C4. A Withdraw of \<open>a\<close> from account \<open>s\<close>, or a Move of \<open>a\<close> out of \<open>s\<close>, whose
  \<^verbatim>\<open>handle\<close> reads a balance \<open>cur < a\<close> appends, after its BEGIN, exactly a READ record
  and a COMMIT record that carries the error message: no WRITE record, for Move the test
  comes before any WRITE. For a well-formed operation on a terminated journal,
  \<open>read\<close> then answers for every account what it answered before the call.
\<close>

theorem insufficient_funds_unchanged:
  assumes "p = WithdrawOp t s a \<or> p = MoveOp t s d a"
    and "\<not> already_committed f p"
    and "read (if wb then log f (BeginLogLine (id_op p)) else f) s = Inr cur"
    and "cur < a"
  shows "handle p wb f =
           (f @ (if wb then line (BeginLogLine (id_op p)) else []) @ line (ReadLogLine s cur)
              @ line (CommitLogLine (Some (insufficient cur a))), None) \<and>
         (wf_op p \<and> terminated f \<longrightarrow>
            (\<forall>acct. read (fst (handle p wb f)) acct = read f acct))"
proof (intro conjI impI allI)
  show h: "handle p wb f =
           (f @ (if wb then line (BeginLogLine (id_op p)) else []) @ line (ReadLogLine s cur)
              @ line (CommitLogLine (Some (insufficient cur a))), None)"
    using assms by (cases wb) (auto simp add: Let_def log_def simp del: id_op.simps line.simps)
  fix acct
  assume "wf_op p \<and> terminated f"
  then have w: "wf_op p" and t: "terminated f" by simp_all
  let ?ls = "(if wb then [BeginLogLine (id_op p)] else [])
      @ [ReadLogLine s cur, CommitLogLine (Some (insufficient cur a))]"
  from w assms(1) have "is_token s" by auto
  with w have wl: "\<forall>l\<in>set ?ls. wf_line l" by (simp add: one_line_id_op)
  have "fst (handle p wb f) = foldl log f ?ls"
    by (simp add: h log_def del: id_op.simps line.simps)
  then have "read (fst (handle p wb f)) = foldl (\<lambda>r l. apply_line l r) (read f) ?ls"
    using read_foldl_log [OF t wl] by simp
  then show "read (fst (handle p wb f)) acct = read f acct" by simp
qed

theorem insufficient_funds_unchanged_witness:
  "\<not> already_committed ''BEGIN dep_1_A_3\<newline>READ A 0\<newline>WRITE A 3\<newline>COMMIT\<newline>''
       (MoveOp (PyInt 2) ''A'' ''B'' 5) \<and>
   read (log ''BEGIN dep_1_A_3\<newline>READ A 0\<newline>WRITE A 3\<newline>COMMIT\<newline>''
          (BeginLogLine (id_op (MoveOp (PyInt 2) ''A'' ''B'' 5)))) ''A'' = Inr 3 \<and>
   (3::int) < 5 \<and> wf_op (MoveOp (PyInt 2) ''A'' ''B'' 5) \<and>
   terminated ''BEGIN dep_1_A_3\<newline>READ A 0\<newline>WRITE A 3\<newline>COMMIT\<newline>'' \<and>
   handle (MoveOp (PyInt 2) ''A'' ''B'' 5) True
       ''BEGIN dep_1_A_3\<newline>READ A 0\<newline>WRITE A 3\<newline>COMMIT\<newline>'' =
     (''BEGIN dep_1_A_3\<newline>READ A 0\<newline>WRITE A 3\<newline>COMMIT\<newline>BEGIN mov_2_A_B_5\<newline>READ A 3\<newline>COMMIT ERROR: insufficient funds: 3 < 5\<newline>'',
      None) \<and>
   (\<forall>acct. read (fst (handle (MoveOp (PyInt 2) ''A'' ''B'' 5) True
       ''BEGIN dep_1_A_3\<newline>READ A 0\<newline>WRITE A 3\<newline>COMMIT\<newline>'')) acct =
     read ''BEGIN dep_1_A_3\<newline>READ A 0\<newline>WRITE A 3\<newline>COMMIT\<newline>'' acct)"
proof -
  let ?f = "''BEGIN dep_1_A_3\<newline>READ A 0\<newline>WRITE A 3\<newline>COMMIT\<newline>''"
  let ?p = "MoveOp (PyInt 2) ''A'' ''B'' 5"
  have 1: "?p = WithdrawOp (PyInt 2) ''A'' 5 \<or> ?p = MoveOp (PyInt 2) ''A'' ''B'' 5" by simp
  have 2: "\<not> already_committed ?f ?p" by code_simp
  have 3: "read (log ?f (BeginLogLine (id_op ?p))) ''A'' = Inr 3" by code_simp
  then have h3: "read (if True then log ?f (BeginLogLine (id_op ?p)) else ?f) ''A'' = Inr 3"
    by (simp only: if_True)
  have 4: "(3::int) < 5" by simp
  have 5: "wf_op ?p" by code_simp
  have 6: "terminated ?f" by code_simp
  have 7: "handle ?p True ?f =
     (''BEGIN dep_1_A_3\<newline>READ A 0\<newline>WRITE A 3\<newline>COMMIT\<newline>BEGIN mov_2_A_B_5\<newline>READ A 3\<newline>COMMIT ERROR: insufficient funds: 3 < 5\<newline>'',
      None)"
    by code_simp
  from insufficient_funds_unchanged [OF 1 2 h3 4]
  have "wf_op ?p \<and> terminated ?f \<longrightarrow>
      (\<forall>acct. read (fst (handle ?p True ?f)) acct = read ?f acct)"
    by (rule conjunct2)
  with 5 6 have 8: "\<forall>acct. read (fst (handle ?p True ?f)) acct = read ?f acct"
    by blast
  show ?thesis
    by (intro conjI) (fact 2, fact 3, fact 4, fact 5, fact 6, fact 7, fact 8)
qed

section \<open>Self-move\<close>

text \<open>
  C10. A Move from an account to itself with enough funds logs a success COMMIT and
  leaves the balance as it was: the destination read sees the value the source WRITE
  just logged, \<open>c - m\<close>, and the destination WRITE puts \<open>c\<close> back.
\<close>

theorem self_move_unchanged:
  assumes "is_token acct" and "one_line (str t)" and "terminated f"
    and "\<not> already_committed f (MoveOp t acct acct m)"
    and "read f acct = Inr c" and "m \<le> c"
  shows "handle (MoveOp t acct acct m) True f =
           (f @ line (BeginLogLine (id_op (MoveOp t acct acct m))) @ line (ReadLogLine acct c)
              @ line (WriteLogLine acct (c - m)) @ line (ReadLogLine acct (c - m))
              @ line (WriteLogLine acct c) @ line (CommitLogLine None), None) \<and>
         read (fst (handle (MoveOp t acct acct m) True f)) acct = Inr c"
proof -
  let ?p = "MoveOp t acct acct m"
  let ?ls = "[BeginLogLine (id_op ?p), ReadLogLine acct c, WriteLogLine acct (c - m),
              ReadLogLine acct (c - m), WriteLogLine acct c, CommitLogLine None]"
  have w: "wf_op ?p" using assms by simp
  have b: "body ?p (read f) = (tl ?ls, None)" using assms by simp
  have h: "handle ?p True f = (foldl log f ?ls, None)"
    using handle_body [OF w assms(3,4), of True] b by (simp del: id_op.simps handle.simps)
  have wl: "\<forall>l\<in>set ?ls. wf_line l" using w assms(1) by (simp add: one_line_id_op del: id_op.simps)
  have "read (foldl log f ?ls) = foldl (\<lambda>r l. apply_line l r) (read f) ?ls"
    using assms(3) wl by (rule read_foldl_log)
  then have r: "read (foldl log f ?ls) acct = Inr c" by simp
  have fl: "foldl log f ?ls =
      f @ line (BeginLogLine (id_op ?p)) @ line (ReadLogLine acct c)
        @ line (WriteLogLine acct (c - m)) @ line (ReadLogLine acct (c - m))
        @ line (WriteLogLine acct c) @ line (CommitLogLine None)"
    by (simp add: log_def del: id_op.simps line.simps)
  have A: "handle ?p True f = (f @ line (BeginLogLine (id_op ?p)) @ line (ReadLogLine acct c)
        @ line (WriteLogLine acct (c - m)) @ line (ReadLogLine acct (c - m))
        @ line (WriteLogLine acct c) @ line (CommitLogLine None), None)"
    unfolding h fl by (rule refl)
  have B: "read (fst (handle ?p True f)) acct = Inr c"
    unfolding h fst_conv by (rule r)
  from A B show ?thesis by (rule conjI)
qed

theorem self_move_unchanged_witness:
  "is_token ''A'' \<and> one_line (str (PyInt 2)) \<and>
   terminated ''BEGIN dep_1_A_5\<newline>READ A 0\<newline>WRITE A 5\<newline>COMMIT\<newline>'' \<and>
   \<not> already_committed ''BEGIN dep_1_A_5\<newline>READ A 0\<newline>WRITE A 5\<newline>COMMIT\<newline>''
       (MoveOp (PyInt 2) ''A'' ''A'' 3) \<and>
   read ''BEGIN dep_1_A_5\<newline>READ A 0\<newline>WRITE A 5\<newline>COMMIT\<newline>'' ''A'' = Inr 5 \<and>
   (3::int) \<le> 5 \<and>
   handle (MoveOp (PyInt 2) ''A'' ''A'' 3) True
       ''BEGIN dep_1_A_5\<newline>READ A 0\<newline>WRITE A 5\<newline>COMMIT\<newline>'' =
     (''BEGIN dep_1_A_5\<newline>READ A 0\<newline>WRITE A 5\<newline>COMMIT\<newline>BEGIN mov_2_A_A_3\<newline>READ A 5\<newline>WRITE A 2\<newline>READ A 2\<newline>WRITE A 5\<newline>COMMIT\<newline>'',
      None) \<and>
   read (fst (handle (MoveOp (PyInt 2) ''A'' ''A'' 3) True
       ''BEGIN dep_1_A_5\<newline>READ A 0\<newline>WRITE A 5\<newline>COMMIT\<newline>'')) ''A'' = Inr 5"
proof -
  let ?f = "''BEGIN dep_1_A_5\<newline>READ A 0\<newline>WRITE A 5\<newline>COMMIT\<newline>''"
  let ?p = "MoveOp (PyInt 2) ''A'' ''A'' 3"
  have 1: "is_token ''A''" by code_simp
  have 2: "one_line (str (PyInt 2))" by code_simp
  have 3: "terminated ?f" by code_simp
  have 4: "\<not> already_committed ?f ?p" by code_simp
  have 5: "read ?f ''A'' = Inr 5" by code_simp
  have 6: "(3::int) \<le> 5" by simp
  have 7: "handle ?p True ?f =
     (''BEGIN dep_1_A_5\<newline>READ A 0\<newline>WRITE A 5\<newline>COMMIT\<newline>BEGIN mov_2_A_A_3\<newline>READ A 5\<newline>WRITE A 2\<newline>READ A 2\<newline>WRITE A 5\<newline>COMMIT\<newline>'',
      None)"
    by code_simp
  have 8: "read (fst (handle ?p True ?f)) ''A'' = Inr 5"
    using self_move_unchanged [OF 1 2 3 4 5 6] by (rule conjunct2)
  show ?thesis
    by (intro conjI) (fact 1, fact 2, fact 3, fact 4, fact 5, fact 6, fact 7, fact 8)
qed

section \<open>read and open transactions\<close>

lemma read_loop_skip:
  "\<forall>l\<in>set xs. startswith l WRITE \<longrightarrow>
      (case py_split l of [w, x, y] \<Rightarrow> x \<noteq> acct | _ \<Rightarrow> False) \<Longrightarrow>
   read_loop acct (xs @ ys) = read_loop acct ys"
  by (induction xs) (auto split: list.splits)

text \<open>
  C9. \<open>read\<close> looks at WRITE lines only. When the last WRITE record for an account is
  \<^verbatim>\<open>WRITE acct v\<close> (the lines after it hold no WRITE for that account), \<open>read\<close> answers
  \<open>v\<close>, whatever else follows or does not follow: no COMMIT is asked for, so the WRITE
  of a transaction that is still open counts.
\<close>

theorem read_ignores_commit:
  assumes "terminated f" and "is_token acct"
    and "\<forall>l\<in>set (readlines g).
           startswith l WRITE \<longrightarrow> (case py_split l of [w, x, y] \<Rightarrow> x \<noteq> acct | _ \<Rightarrow> False)"
  shows "read (f @ line (WriteLogLine acct v) @ g) acct = Inr v"
proof -
  have wl: "wf_line (WriteLogLine acct v)" using assms(2) by simp
  have t: "terminated (log f (WriteLogLine acct v))" by simp
  have "readlines (log f (WriteLogLine acct v) @ g)
      = readlines (log f (WriteLogLine acct v)) @ readlines g"
    using t by (rule readlines_append)
  then have "readlines (f @ line (WriteLogLine acct v) @ g)
      = readlines f @ [line (WriteLogLine acct v)] @ readlines g"
    using readlines_log [OF assms(1) wl] by (simp add: log_def del: line.simps)
  then have "read (f @ line (WriteLogLine acct v) @ g) acct
      = read_loop acct (rev (readlines g) @ line (WriteLogLine acct v) # rev (readlines f))"
    by (simp add: read_def)
  also have "\<dots> = read_loop acct (line (WriteLogLine acct v) # rev (readlines f))"
    using assms(3) by (intro read_loop_skip) simp
  also have "\<dots> = read (log f (WriteLogLine acct v)) acct"
    using readlines_log [OF assms(1) wl] by (simp add: read_def)
  also have "\<dots> = Inr v"
    using read_log [OF assms(1) wl] by simp
  finally show ?thesis .
qed

theorem read_ignores_commit_witness:
  "terminated ''BEGIN mov_1_A_B_3\<newline>READ A 5\<newline>'' \<and> is_token ''A'' \<and>
   readlines ''READ B 0\<newline>WRITE B 3\<newline>'' = [''READ B 0\<newline>'', ''WRITE B 3\<newline>''] \<and>
   \<not> already_committed
       (''BEGIN mov_1_A_B_3\<newline>READ A 5\<newline>'' @ line (WriteLogLine ''A'' 2)
          @ ''READ B 0\<newline>WRITE B 3\<newline>'')
       (MoveOp (PyInt 1) ''A'' ''B'' 3) \<and>
   read (''BEGIN mov_1_A_B_3\<newline>READ A 5\<newline>'' @ line (WriteLogLine ''A'' 2)
          @ ''READ B 0\<newline>WRITE B 3\<newline>'') ''A'' = Inr 2"
proof -
  let ?f = "''BEGIN mov_1_A_B_3\<newline>READ A 5\<newline>''"
  let ?g = "''READ B 0\<newline>WRITE B 3\<newline>''"
  have 1: "terminated ?f" by code_simp
  have 2: "is_token ''A''" by code_simp
  have 3: "readlines ?g = [''READ B 0\<newline>'', ''WRITE B 3\<newline>'']" by code_simp
  have 4: "\<forall>l\<in>set (readlines ?g).
      startswith l WRITE \<longrightarrow> (case py_split l of [w, x, y] \<Rightarrow> x \<noteq> ''A'' | _ \<Rightarrow> False)"
    by code_simp
  have 5: "\<not> already_committed (?f @ line (WriteLogLine ''A'' 2) @ ?g)
      (MoveOp (PyInt 1) ''A'' ''B'' 3)"
    by code_simp
  have 6: "read (?f @ line (WriteLogLine ''A'' 2) @ ?g) ''A'' = Inr 2"
    using 1 2 4 by (rule read_ignores_commit)
  show ?thesis by (intro conjI) (fact 1, fact 2, fact 3, fact 5, fact 6)
qed

section \<open>Operation ids\<close>

lemma split_sep_field:
  "sep \<notin> set w \<Longrightarrow> split_sep sep (w @ sep # r) = w # split_sep sep r"
  by (induction w) auto

lemma split_sep_last: "sep \<notin> set w \<Longrightarrow> split_sep sep w = [w]"
  by (induction w) auto

lemma split_sep_four:
  "sep \<notin> set a \<Longrightarrow> sep \<notin> set b \<Longrightarrow> sep \<notin> set c \<Longrightarrow> sep \<notin> set d \<Longrightarrow>
   split_sep sep (a @ sep # b @ sep # c @ sep # d) = [a, b, c, d]"
  by (simp add: split_sep_field split_sep_last)

lemma split_sep_five:
  "sep \<notin> set a \<Longrightarrow> sep \<notin> set b \<Longrightarrow> sep \<notin> set c \<Longrightarrow> sep \<notin> set d \<Longrightarrow>
   sep \<notin> set e \<Longrightarrow>
   split_sep sep (a @ sep # b @ sep # c @ sep # d @ sep # e) = [a, b, c, d, e]"
  by (simp add: split_sep_field split_sep_last)

lemma parse_id_move:
  assumes "no_sep (str t)" and "no_sep s" and "no_sep d"
  shows "parse_op_from_id (id_op (MoveOp t s d a)) = Inr (MoveOp (PyStr (str t)) s d a)"
proof -
  have "split_sep ID_SEPARATOR (''mov'' @ ID_SEPARATOR # str t @ ID_SEPARATOR # s @ ID_SEPARATOR # d
          @ ID_SEPARATOR # str_int a) = [''mov'', str t, s, d, str_int a]"
    using assms str_int_no_sep [of a] unfolding no_sep_def
    by (intro split_sep_five) simp_all
  then show ?thesis by (simp add: parse_op_from_id_def py_int_str_int)
qed

lemma parse_id_withdraw:
  assumes "no_sep (str t)" and "no_sep d"
  shows "parse_op_from_id (id_op (WithdrawOp t d a)) = Inr (WithdrawOp (PyStr (str t)) d a)"
proof -
  have "split_sep ID_SEPARATOR (''wit'' @ ID_SEPARATOR # str t @ ID_SEPARATOR # d
          @ ID_SEPARATOR # str_int a) = [''wit'', str t, d, str_int a]"
    using assms str_int_no_sep [of a] unfolding no_sep_def
    by (intro split_sep_four) simp_all
  then show ?thesis by (simp add: parse_op_from_id_def py_int_str_int)
qed

lemma parse_id_deposit:
  assumes "no_sep (str t)" and "no_sep d"
  shows "parse_op_from_id (id_op (DepositOp t d a)) = Inr (DepositOp (PyStr (str t)) d a)"
proof -
  have "split_sep ID_SEPARATOR (''dep'' @ ID_SEPARATOR # str t @ ID_SEPARATOR # d
          @ ID_SEPARATOR # str_int a) = [''dep'', str t, d, str_int a]"
    using assms str_int_no_sep [of a] unfolding no_sep_def
    by (intro split_sep_four) simp_all
  then show ?thesis by (simp add: parse_op_from_id_def py_int_str_int)
qed

lemma id_op_with_text_ts [simp]: "id_op (with_text_ts p) = id_op p"
  by (cases p) simp_all

text \<open>
  C8, as amended. For an operation whose timestamp text and account names hold no
  separator, \<^verbatim>\<open>parse_op_from_id(op.id())\<close> returns an operation of the same class with
  the same accounts and amount and with the timestamp's text as its timestamp, so its
  id is \<^verbatim>\<open>op.id()\<close> again; when the timestamp was a string already, the operation
  comes back unchanged.
\<close>

theorem id_round_trip:
  assumes "sep_free p"
  shows "parse_op_from_id (id_op p) = Inr (with_text_ts p) \<and>
         id_op (with_text_ts p) = id_op p \<and>
         (\<forall>x. ts p = PyStr x \<longrightarrow> parse_op_from_id (id_op p) = Inr p)"
proof -
  have 1: "parse_op_from_id (id_op p) = Inr (with_text_ts p)"
    using assms by (cases p) (simp_all add: parse_id_move parse_id_withdraw parse_id_deposit del: id_op.simps)
  have 2: "ts p = PyStr x \<Longrightarrow> with_text_ts p = p" for x
    by (cases p) simp_all
  from 1 2 show ?thesis by auto
qed

theorem id_round_trip_witness:
  "sep_free (MoveOp (PyStr ''1700000000'') ''A'' ''B'' 15) \<and>
   id_op (MoveOp (PyStr ''1700000000'') ''A'' ''B'' 15) = ''mov_1700000000_A_B_15'' \<and>
   parse_op_from_id (id_op (MoveOp (PyStr ''1700000000'') ''A'' ''B'' 15)) =
     Inr (MoveOp (PyStr ''1700000000'') ''A'' ''B'' 15)"
proof -
  let ?p = "MoveOp (PyStr ''1700000000'') ''A'' ''B'' 15"
  have 1: "sep_free ?p" by code_simp
  have 2: "id_op ?p = ''mov_1700000000_A_B_15''" by code_simp
  have "ts ?p = PyStr ''1700000000''" by simp
  with id_round_trip [OF 1] have 3: "parse_op_from_id (id_op ?p) = Inr ?p" by blast
  show ?thesis by (intro conjI) (fact 1, fact 2, fact 3)
qed

text \<open>
  C8 as stated fails for the timestamps the program itself uses: the integer \<open>5\<close>
  comes back as the string \<^verbatim>\<open>"5"\<close>, which is not equal to it.
\<close>

theorem int_timestamp_comes_back_as_text:
  "sep_free (DepositOp (PyInt 5) ''A'' 5) \<and>
   parse_op_from_id (id_op (DepositOp (PyInt 5) ''A'' 5)) = Inr (DepositOp (PyStr ''5'') ''A'' 5) \<and>
   ts (DepositOp (PyStr ''5'') ''A'' 5) \<noteq> ts (DepositOp (PyInt 5) ''A'' 5)"
  by code_simp

section \<open>Balances\<close>

lemma line_eq_commit: "line l = line (CommitLogLine None) \<longleftrightarrow> l = CommitLogLine None"
  by (cases l) (auto split: option.splits)

lemma line_nonempty: "line l \<noteq> []"
  by (cases l) simp_all

lemma succeeded_iff:
  assumes "wf_op p" and "terminated f"
  shows "succeeded p f \<longleftrightarrow>
    (\<not> already_committed f p \<and> snd (body p (read f)) = None \<and>
     fst (body p (read f)) \<noteq> [] \<and> last (fst (body p (read f))) = CommitLogLine None)"
proof (cases "already_committed f p")
  case True
  then have "handle p True f = (f, None)" by (cases p) simp_all
  with True show ?thesis by (simp add: succeeded_def)
next
  case False
  let ?recs = "fst (body p (read f))"
  let ?ls = "BeginLogLine (id_op p) # ?recs"
  have h: "handle p True f = (foldl log f ?ls, snd (body p (read f)))"
    using handle_body [OF assms False, of True] by simp
  have wl: "\<forall>l\<in>set ?ls. wf_line l"
    using assms(1) wf_body [OF assms(1)] by (auto simp: one_line_id_op)
  have "foldl log f ?ls = f @ (line (BeginLogLine (id_op p)) @ concat (map line ?recs))"
    by (simp add: foldl_log del: line.simps foldl.simps)
  then have ne: "foldl log f ?ls \<noteq> f"
    by (simp add: line_nonempty del: line.simps foldl.simps)
  have rl: "readlines (foldl log f ?ls) = readlines f @ map line ?ls"
    using assms(2) wl by (rule readlines_foldl_log)
  show ?thesis
  proof (cases "snd (body p (read f))")
    case (Some e)
    with h False show ?thesis by (simp add: succeeded_def)
  next
    case None
    have nonempty: "?recs \<noteq> []"
      using None by (cases p) (auto split: sum.splits if_splits)
    then have "last (readlines f @ map line ?ls) = line (last ?recs)"
      by (simp add: last_map del: line.simps)
    with h None False ne rl nonempty show ?thesis
      by (simp add: succeeded_def line_eq_commit del: line.simps foldl.simps)
  qed
qed

lemma handle_step:
  assumes "wf_op p" and "terminated f" and "\<forall>acct. read f acct = Inr (b acct)"
  shows "\<exists>f'. handle p True f = (f', None) \<and> terminated f' \<and>
    (\<forall>acct. read f' acct =
       Inr (b acct + (if succeeded p f then signed_amount p acct else 0)))"
proof (cases "already_committed f p")
  case True
  then have "handle p True f = (f, None)" by (cases p) simp_all
  moreover have "\<not> succeeded p f" using True assms by (simp add: succeeded_iff)
  ultimately show ?thesis using assms by simp
next
  case False
  let ?recs = "fst (body p (read f))"
  let ?ls = "BeginLogLine (id_op p) # ?recs"
  have rf: "read f = (\<lambda>acct. Inr (b acct))" using assms(3) by auto
  have h: "handle p True f = (foldl log f ?ls, snd (body p (read f)))"
    using handle_body [OF assms(1,2) False, of True] by simp
  have wl: "\<forall>l\<in>set ?ls. wf_line l"
    using assms(1) wf_body [OF assms(1)] by (auto simp: one_line_id_op)
  have t: "terminated (foldl log f ?ls)"
    using assms(2) by (rule terminated_foldl_log)
  have r: "read (foldl log f ?ls) = foldl (\<lambda>r l. apply_line l r) (read f) ?ls"
    using assms(2) wl by (rule read_foldl_log)
  have s: "succeeded p f \<longleftrightarrow>
      (snd (body p (read f)) = None \<and> ?recs \<noteq> [] \<and> last ?recs = CommitLogLine None)"
    using False assms by (simp add: succeeded_iff)
  have e: "snd (body p (read f)) = None"
    unfolding rf by (cases p) (auto split: sum.splits)
  have v: "foldl (\<lambda>r l. apply_line l r) (read f) ?ls acct =
      Inr (b acct + (if succeeded p f then signed_amount p acct else 0))" for acct
    unfolding s rf by (cases p) (auto split: sum.splits)
  from h e t r v show ?thesis by (simp del: foldl.simps)
qed

lemma run_ops_balance:
  "\<forall>p\<in>set ops. wf_op p \<Longrightarrow> terminated f \<Longrightarrow> \<forall>acct. read f acct = Inr (b acct) \<Longrightarrow>
   \<exists>f'. run_ops ops f = (f', None) \<and>
     (\<forall>acct. read f' acct =
        Inr (b acct + sum_list (map (\<lambda>p. signed_amount p acct) (committed_ops ops f))))"
proof (induction ops arbitrary: f b)
  case Nil
  then show ?case by simp
next
  case (Cons p ps)
  then have w: "wf_op p" and ws: "\<forall>p\<in>set ps. wf_op p" by simp_all
  let ?b = "\<lambda>acct. b acct + (if succeeded p f then signed_amount p acct else 0)"
  from handle_step [OF w Cons.prems(2,3)] obtain f1 where
    h: "handle p True f = (f1, None)" and t: "terminated f1"
    and r: "\<forall>acct. read f1 acct = Inr (?b acct)"
    by blast
  from Cons.IH [OF ws t r] obtain f' where
    run: "run_ops ps f1 = (f', None)"
    and r': "\<forall>acct. read f' acct =
        Inr (?b acct + sum_list (map (\<lambda>p. signed_amount p acct) (committed_ops ps f1)))"
    by blast
  have "run_ops (p # ps) f = (f', None)" using h run by (simp del: handle.simps)
  moreover have "read f' acct =
        Inr (b acct + sum_list (map (\<lambda>p. signed_amount p acct) (committed_ops (p # ps) f)))"
    for acct
    using r' h by (simp del: handle.simps)
  ultimately show ?case by blast
qed

lemma read_no_write:
  "\<forall>l\<in>set (readlines g). startswith l WRITE \<longrightarrow>
      (case py_split l of [w, x, y] \<Rightarrow> x \<noteq> acct | _ \<Rightarrow> False) \<Longrightarrow>
   read g acct = Inr 0"
  using read_loop_skip [of "rev (readlines g)" acct "[]"] by (simp add: read_def)

text \<open>
  C3. Run any list of well-formed Deposit, Withdraw and Move operations, one after the
  other, on the empty journal. The run returns, and for every account \<open>read\<close> gives the
  sum of the signed amounts of the operations that were successfully committed: a
  deposit or a move in counts positive, a withdrawal or a move out negative, and an
  attempt that failed for insufficient funds (or a call that was skipped) counts nothing.
  On any journal, \<open>read\<close> gives 0 for an account that no WRITE line names.
\<close>

theorem balance_is_sum_of_committed:
  assumes "\<forall>p\<in>set ops. wf_op p"
  shows "(\<exists>f. run_ops ops [] = (f, None) \<and>
           (\<forall>acct. read f acct =
              Inr (sum_list (map (\<lambda>p. signed_amount p acct) (committed_ops ops []))))) \<and>
         (\<forall>g acct.
            (\<forall>l\<in>set (readlines g). startswith l WRITE \<longrightarrow>
               (case py_split l of [w, x, y] \<Rightarrow> x \<noteq> acct | _ \<Rightarrow> False)) \<longrightarrow>
            read g acct = Inr 0)"
proof -
  have "\<forall>acct. read [] acct = Inr ((\<lambda>_. 0) acct)" by (simp add: read_def)
  from run_ops_balance [OF assms terminated_Nil this]
  have 1: "\<exists>f. run_ops ops [] = (f, None) \<and>
           (\<forall>acct. read f acct =
              Inr (sum_list (map (\<lambda>p. signed_amount p acct) (committed_ops ops []))))"
    by simp
  from 1 read_no_write show ?thesis by blast
qed

theorem balance_is_sum_of_committed_witness:
  "list_all wf_op
     [DepositOp (PyInt 1) ''A'' 5, DepositOp (PyInt 2) ''A'' 10, WithdrawOp (PyInt 3) ''A'' 100,
      MoveOp (PyInt 4) ''A'' ''B'' 15, MoveOp (PyInt 4) ''A'' ''B'' 15] \<and>
   committed_ops
     [DepositOp (PyInt 1) ''A'' 5, DepositOp (PyInt 2) ''A'' 10, WithdrawOp (PyInt 3) ''A'' 100,
      MoveOp (PyInt 4) ''A'' ''B'' 15, MoveOp (PyInt 4) ''A'' ''B'' 15] [] =
     [DepositOp (PyInt 1) ''A'' 5, DepositOp (PyInt 2) ''A'' 10, MoveOp (PyInt 4) ''A'' ''B'' 15] \<and>
   (\<exists>f. run_ops
     [DepositOp (PyInt 1) ''A'' 5, DepositOp (PyInt 2) ''A'' 10, WithdrawOp (PyInt 3) ''A'' 100,
      MoveOp (PyInt 4) ''A'' ''B'' 15, MoveOp (PyInt 4) ''A'' ''B'' 15] [] = (f, None) \<and>
      read f ''A'' = Inr 0 \<and> read f ''B'' = Inr 15)"
proof -
  let ?ops = "[DepositOp (PyInt 1) ''A'' 5, DepositOp (PyInt 2) ''A'' 10,
      WithdrawOp (PyInt 3) ''A'' 100, MoveOp (PyInt 4) ''A'' ''B'' 15,
      MoveOp (PyInt 4) ''A'' ''B'' 15]"
  have 1: "list_all wf_op ?ops" by code_simp
  then have w: "\<forall>p\<in>set ?ops. wf_op p" by (simp only: list_all_iff)
  have 2: "committed_ops ?ops [] =
      [DepositOp (PyInt 1) ''A'' 5, DepositOp (PyInt 2) ''A'' 10, MoveOp (PyInt 4) ''A'' ''B'' 15]"
    by code_simp
  from balance_is_sum_of_committed [OF w] obtain f where
    run: "run_ops ?ops [] = (f, None)"
    and r: "\<forall>acct. read f acct =
              Inr (sum_list (map (\<lambda>p. signed_amount p acct) (committed_ops ?ops [])))"
    by blast
  from r have "read f ''A'' = Inr 0" and "read f ''B'' = Inr 15"
    unfolding 2 by simp_all
  with run have 3: "\<exists>f. run_ops ?ops [] = (f, None) \<and>
      read f ''A'' = Inr 0 \<and> read f ''B'' = Inr 15"
    by blast
  show ?thesis by (intro conjI) (fact 1, fact 2, fact 3)
qed

section \<open>Recovery after a crash\<close>

subsection \<open>The rewritten file\<close>

lemma readlines_LF [simp]: "readlines [LF] = [[LF]]"
  by (simp add: readlines_def)

lemma terminated_writelines: "terminated (writelines ls)"
  by (induction ls) (auto simp: writelines_def terminated_def)

lemma readlines_writelines:
  "\<forall>l\<in>set ls. proper_line l \<Longrightarrow>
   readlines (writelines ls) = concat (map (\<lambda>l. [l, [LF]]) ls)"
proof (induction ls)
  case Nil
  then show ?case by (simp add: writelines_def)
next
  case (Cons l ls)
  then have p: "proper_line l" by simp
  then have t: "terminated l" by (auto simp: proper_line_def terminated_def)
  have w: "writelines (l # ls) = (l @ [LF]) @ writelines ls" by (simp add: writelines_def)
  have "terminated (l @ [LF])" by (simp add: terminated_def)
  then have "readlines (writelines (l # ls)) = readlines (l @ [LF]) @ readlines (writelines ls)"
    unfolding w by (rule readlines_append)
  moreover have "readlines (l @ [LF]) = [l, [LF]]"
    using readlines_append [OF t, of "[LF]"] readlines_proper_line [OF p] by simp
  ultimately show ?case using Cons by simp
qed

lemma strip_LF [simp]: "strip [LF] = []"
  by (simp add: strip_def is_space_def)

lemma loop_Cons:
  "already_committed_loop oid b (l # ls) =
     (((b \<or> contains oid (strip l)) \<and> strip l = COMMIT) \<or>
      already_committed_loop oid (b \<or> contains oid (strip l)) ls)"
  by (auto simp add: Let_def simp del: contains.simps)

lemma loop_interleave:
  "oid \<noteq> [] \<Longrightarrow>
   already_committed_loop oid b (concat (map (\<lambda>l. [l, [LF]]) ls)) = already_committed_loop oid b ls"
  by (induction ls arbitrary: b)
     (simp_all add: loop_Cons del: already_committed_loop.simps(2) contains.simps(2))

lemma loop_snoc:
  "strip l \<noteq> COMMIT \<Longrightarrow>
   already_committed_loop oid b (ls @ [l]) = already_committed_loop oid b ls"
  by (induction ls arbitrary: b)
     (simp_all add: loop_Cons del: already_committed_loop.simps(2) contains.simps)

lemma strip_keeps_first: "\<not> is_space c \<Longrightarrow> \<exists>t. strip (c # x) = c # t"
proof -
  assume c: "\<not> is_space c"
  have "\<exists>ys. dropWhile is_space (zs @ [c]) = ys @ [c]" for zs
    using c by (induction zs) auto
  then obtain ys where "dropWhile is_space (rev x @ [c]) = ys @ [c]" by blast
  with c show ?thesis by (simp add: strip_def)
qed

lemma strip_begin: "strip (line (BeginLogLine oid)) \<noteq> COMMIT"
proof -
  have "\<not> is_space (CHR ''B'')" by (simp add: is_space_def)
  from strip_keeps_first [OF this, of "''EGIN '' @ oid @ [LF]"] show ?thesis by auto
qed

lemma read_loop_Cons_cong:
  "read_loop acct xs = read_loop acct ys \<Longrightarrow> read_loop acct (l # xs) = read_loop acct (l # ys)"
  by (simp split: list.splits)

lemma read_loop_interleave:
  "read_loop acct (rev (concat (map (\<lambda>l. [l, [LF]]) ls))) = read_loop acct (rev ls)"
proof (induction ls rule: rev_induct)
  case Nil
  then show ?case by simp
next
  case (snoc l ls)
  then have "read_loop acct (l # rev (concat (map (\<lambda>l. [l, [LF]]) ls)))
      = read_loop acct (l # rev ls)"
    by (rule read_loop_Cons_cong)
  then show ?case by (simp del: read_loop.simps(2) add: read_loop.simps(2) [of _ "[LF]"])
qed

subsection \<open>The last BEGIN\<close>

lemma last_begin_loop_none:
  "\<forall>y\<in>set ys. \<not> startswith y BEGIN \<Longrightarrow> last_begin_loop acc i ys = acc"
  by (induction ys arbitrary: i) simp_all

lemma last_begin_loop_append:
  "last_begin_loop acc i (xs @ ys) = last_begin_loop (last_begin_loop acc i xs) (i + length xs) ys"
  by (induction xs arbitrary: acc i) simp_all

lemma last_begin_found:
  assumes "startswith b BEGIN" and "\<forall>y\<in>set ys. \<not> startswith y BEGIN"
  shows "last_begin (xs @ b # ys) = Some (length xs)"
  using assms by (simp add: last_begin_def last_begin_loop_append last_begin_loop_none)

lemma body_not_begin: "l \<in> set (fst (body p r)) \<Longrightarrow> \<not> startswith (line l) BEGIN"
  by (cases p) (auto split: sum.splits if_splits option.splits)

subsection \<open>The replayed operation\<close>

lemma body_with_text_ts [simp]: "body (with_text_ts p) r = body p r"
  by (cases p) simp_all

lemma wf_op_with_text_ts [simp]: "wf_op (with_text_ts p) = wf_op p"
  by (cases p) simp_all

lemma already_committed_with_text_ts [simp]:
  "already_committed f (with_text_ts p) = already_committed f p"
  by (simp add: already_committed_def)

lemma no_space_append [simp]: "no_space (a @ b) \<longleftrightarrow> no_space a \<and> no_space b"
  by (auto simp: no_space_def)

lemma no_space_Cons [simp]: "no_space (c # s) \<longleftrightarrow> \<not> is_space c \<and> no_space s"
  by (auto simp: no_space_def)

lemma no_space_Nil [simp]: "no_space []"
  by (simp add: no_space_def)

lemma id_op_token: "recoverable p \<Longrightarrow> is_token (id_op p)"
  by (cases p) (simp_all add: recoverable_def is_token_def str_int_no_space is_space_def)

lemma py_split_begin:
  "is_token oid \<Longrightarrow> py_split (line (BeginLogLine oid)) = [BEGIN, oid]"
proof -
  assume o: "is_token oid"
  have b: "no_space ''BEGIN''" by (simp add: is_space_def)
  have 1: "py_split (oid @ [LF]) = [oid]"
    using py_split_token [of oid LF "[]"] o by (simp add: is_token_def)
  have 2: "py_split (''BEGIN'' @ CHR '' '' # oid @ [LF]) = ''BEGIN'' # py_split (oid @ [LF])"
    using b by (intro py_split_token) simp_all
  from 1 2 show ?thesis by simp
qed

lemma parse_id_op: "sep_free p \<Longrightarrow> parse_op_from_id (id_op p) = Inr (with_text_ts p)"
  by (cases p)
     (simp_all add: parse_id_move parse_id_withdraw parse_id_deposit del: id_op.simps)

lemma recover_cut:
  assumes "recoverable p" and "terminated f"
    and "\<forall>l\<in>set mid. wf_line l \<and> \<not> startswith (line l) BEGIN"
  shows "recover (foldl log f (BeginLogLine (id_op p) # mid)) =
    handle (with_text_ts p) False (writelines (readlines f @ [line (BeginLogLine (id_op p))]))"
proof -
  let ?B = "BeginLogLine (id_op p)"
  let ?cut = "foldl log f (?B # mid)"
  let ?n = "length (readlines f)"
  from assms(1) have w: "wf_op p" and sf: "sep_free p" by (simp_all add: recoverable_def)
  have wl: "\<forall>l\<in>set (?B # mid). wf_line l"
    using w assms(3) by (simp add: one_line_id_op)
  have rl: "readlines ?cut = readlines f @ line ?B # map line mid"
    using readlines_foldl_log [OF assms(2) wl] by simp
  have "startswith (line ?B) BEGIN" by simp
  moreover have "\<forall>y\<in>set (map line mid). \<not> startswith y BEGIN" using assms(3) by simp
  ultimately have lb: "last_begin (readlines ?cut) = Some ?n"
    unfolding rl by (rule last_begin_found)
  have tk: "take (?n + 1) (readlines ?cut) = readlines f @ [line ?B]"
    unfolding rl by simp
  have nth: "(readlines f @ [line ?B]) ! ?n = line ?B" by simp
  have sp: "py_split (line ?B) = [BEGIN, id_op p]"
    using id_op_token [OF assms(1)] by (rule py_split_begin)
  have pr: "parse_op_from_id (id_op p) = Inr (with_text_ts p)"
    using sf by (rule parse_id_op)
  show ?thesis
    unfolding recover_def lb option.case tk Let_def nth sp list.case pr sum.case
    by (rule refl)
qed

lemma replay:
  assumes "recoverable p" and "terminated f" and "\<not> already_committed f p"
  defines "f' \<equiv> writelines (readlines f @ [line (BeginLogLine (id_op p))])"
  shows "handle (with_text_ts p) False f' =
           (foldl log f' (fst (body p (read f))), snd (body p (read f)))"
    and "read f' = read f" and "terminated f'"
proof -
  let ?B = "BeginLogLine (id_op p)"
  from assms(1) have w: "wf_op p" by (simp add: recoverable_def)
  have pb: "proper_line (line ?B)"
    using w by (intro proper_line_line) (simp add: one_line_id_op)
  have pl: "\<forall>l\<in>set (readlines f @ [line ?B]). proper_line l"
    using readlines_proper [OF assms(2)] pb by auto
  have rl: "readlines f' = concat (map (\<lambda>l. [l, [LF]]) (readlines f @ [line ?B]))"
    unfolding f'_def using pl by (rule readlines_writelines)
  show t: "terminated f'" unfolding f'_def by (rule terminated_writelines)
  show r: "read f' = read f"
  proof (rule ext)
    fix acct
    have "read f' acct = read_loop acct (rev (readlines f @ [line ?B]))"
      unfolding read_def rl by (rule read_loop_interleave)
    also have "\<dots> = read f acct" by (simp add: read_def)
    finally show "read f' acct = read f acct" .
  qed
  have ne: "id_op p \<noteq> []" using id_op_token [OF assms(1)] by (simp add: is_token_def)
  have "already_committed f' (with_text_ts p) =
      already_committed_loop (id_op p) False (readlines f @ [line ?B])"
    unfolding already_committed_def rl id_op_with_text_ts using ne by (rule loop_interleave)
  also have "\<dots> = already_committed f p"
    unfolding already_committed_def using strip_begin by (rule loop_snoc)
  finally have nc: "\<not> already_committed f' (with_text_ts p)" using assms(3) by simp
  have w': "wf_op (with_text_ts p)" using w by simp
  show "handle (with_text_ts p) False f' =
           (foldl log f' (fst (body p (read f))), snd (body p (read f)))"
    using handle_body [OF w' t nc, of False] r by simp
qed





section \<open>The rewrite inside recover\<close>

text \<open>The file that \<^verbatim>\<open>recover\<close> replays on is the result of the truncate-and-replace step.\<close>

lemma recover_truncate_and_replace:
  "recover f =
     (case last_begin (readlines f) of
        None \<Rightarrow> (f, None)
      | Some i \<Rightarrow>
          (case py_split (take (i + 1) (readlines f) ! i) of
             _ # oid # _ \<Rightarrow>
               (case parse_op_from_id oid of
                  Inl e \<Rightarrow> (truncate_and_replace f, Some e)
                | Inr p \<Rightarrow> handle p False (truncate_and_replace f))
           | _ \<Rightarrow> (truncate_and_replace f, Some IndexError)))"
proof (cases "last_begin (readlines f)")
  case None
  then show ?thesis by (simp add: recover_def)
next
  case (Some i)
  show ?thesis
    unfolding recover_def truncate_and_replace_def Some option.case Let_def by (rule refl)
qed

section \<open>A second call after a successful commit\<close>

text \<open>
  When a \<^verbatim>\<open>handle\<close> call ends with a COMMIT without message, the BEGIN line it wrote
  holds the id and the bare COMMIT follows it, so \<^verbatim>\<open>already_committed\<close> holds on the
  new journal and a second call of the same operation writes nothing.
\<close>

lemma loop_append:
  "already_committed_loop oid b (xs @ ys) =
     (already_committed_loop oid b xs \<or>
      already_committed_loop oid (b \<or> (\<exists>x\<in>set xs. contains oid (strip x))) ys)"
proof (induction xs arbitrary: b)
  case Nil
  then show ?case by simp
next
  case (Cons x xs)
  show ?case
    unfolding append_Cons loop_Cons Cons.IH
    by (auto simp del: contains.simps already_committed_loop.simps)
qed

lemma loop_found_commit:
  "l \<in> set ys \<Longrightarrow> strip l = COMMIT \<Longrightarrow> already_committed_loop oid True ys"
proof (induction ys)
  case Nil
  then show ?case by simp
next
  case (Cons y ys)
  then show ?case
    unfolding loop_Cons by (auto simp del: contains.simps already_committed_loop.simps)
qed

lemma startswith_append: "startswith (s @ t) s"
  by (induction s) simp_all

lemma contains_middle: "contains sub (pre @ sub @ post)"
proof (induction pre)
  case Nil
  show ?case
  proof (cases "sub @ post")
    case Nil
    then show ?thesis by simp
  next
    case (Cons c cs)
    then have "contains sub (sub @ post) = (startswith (sub @ post) sub \<or> contains sub cs)"
      by simp
    then show ?thesis by (simp add: startswith_append del: contains.simps)
  qed
next
  case (Cons c pre)
  then show ?case by simp
qed

lemma strip_begin_line:
  assumes "oid \<noteq> []" and "\<not> is_space (last oid)"
  shows "strip (line (BeginLogLine oid)) = ''BEGIN '' @ oid"
proof -
  have "\<not> is_space (CHR ''B'')" by (simp add: is_space_def)
  then have 1: "dropWhile is_space (line (BeginLogLine oid)) = ''BEGIN '' @ oid @ [LF]"
    by simp
  from assms obtain c cs where r: "rev oid = c # cs" and c: "\<not> is_space c"
    by (cases oid rule: rev_cases) auto
  have "rev (''BEGIN '' @ oid @ [LF]) = LF # rev oid @ rev ''BEGIN ''" by simp
  then have "dropWhile is_space (rev (''BEGIN '' @ oid @ [LF])) = rev oid @ rev ''BEGIN ''"
    using r c by simp
  then have "rev (dropWhile is_space (rev (''BEGIN '' @ oid @ [LF]))) = ''BEGIN '' @ oid"
    by simp
  with 1 show ?thesis unfolding strip_def by simp
qed

lemma str_int_last: "\<not> is_space (last (str_int i))"
  using str_int_no_space [of i] str_int_nonempty [of i] last_in_set [of "str_int i"]
  by (auto simp: no_space_def)

lemma id_op_last: "id_op p \<noteq> [] \<and> \<not> is_space (last (id_op p))"
  using str_int_last str_int_nonempty by (cases p) simp_all

lemma strip_commit [simp]: "strip (line (CommitLogLine None)) = COMMIT"
  by (simp add: strip_def is_space_def)

lemma handle_again_after_commit:
  assumes "wf_op p" and "terminated f" and "succeeded p f"
  shows "handle p True (fst (handle p True f)) = (fst (handle p True f), None)"
proof -
  let ?B = "BeginLogLine (id_op p)"
  let ?recs = "fst (body p (read f))"
  let ?ls = "?B # ?recs"
  from assms have nc: "\<not> already_committed f p" and ne: "?recs \<noteq> []"
    and lc: "last ?recs = CommitLogLine None"
    by (simp_all add: succeeded_iff)
  have h: "fst (handle p True f) = foldl log f ?ls"
    using handle_body [OF assms(1,2) nc, of True] by simp
  have wl: "\<forall>l\<in>set ?ls. wf_line l"
    using assms(1) wf_body [OF assms(1)] by (auto simp: one_line_id_op)
  have rl: "readlines (foldl log f ?ls) = (readlines f @ [line ?B]) @ map line ?recs"
    using readlines_foldl_log [OF assms(2) wl] by simp
  have "strip (line ?B) = ''BEGIN '' @ id_op p"
    using id_op_last [of p] by (intro strip_begin_line) simp_all
  then have "contains (id_op p) (strip (line ?B))"
    using contains_middle [of "id_op p" "''BEGIN ''" "[]"] by simp
  then have found: "\<exists>x\<in>set (readlines f @ [line ?B]). contains (id_op p) (strip x)"
    by simp
  have "line (CommitLogLine None) \<in> set (map line ?recs)"
    using ne lc last_in_set [of ?recs] by (metis imageI list.set_map)
  then have "already_committed_loop (id_op p) True (map line ?recs)"
    using strip_commit by (rule loop_found_commit)
  with found have "already_committed (foldl log f ?ls) p"
    unfolding already_committed_def rl loop_append by simp
  then have "handle p True (foldl log f ?ls) = (foldl log f ?ls, None)"
    by (cases p) simp_all
  then show ?thesis unfolding h .
qed

section \<open>Closed evaluations\<close>

text \<open>
  C7. The substring test of \<^verbatim>\<open>already_committed\<close> gives a false positive: the ids
  \<^verbatim>\<open>dep_1_A_5\<close> and \<^verbatim>\<open>dep_1_A_50\<close> are distinct, the first is a substring of the
  second, and on the journal that holds only the committed transaction of the second
  operation \<^verbatim>\<open>already_committed\<close> answers true for the first, which never ran.
\<close>

theorem substring_false_positive:
  "\<exists>p1 p2 f.
     id_op p1 \<noteq> id_op p2 \<and> contains (id_op p1) (id_op p2) \<and>
     handle p2 True [] = (f, None) \<and>
     f = ''BEGIN dep_1_A_50\<newline>READ A 0\<newline>WRITE A 50\<newline>COMMIT\<newline>'' \<and>
     \<not> already_committed [] p1 \<and> already_committed f p1"
proof -
  let ?p1 = "DepositOp (PyInt 1) ''A'' 5"
  let ?p2 = "DepositOp (PyInt 1) ''A'' 50"
  let ?f = "''BEGIN dep_1_A_50\<newline>READ A 0\<newline>WRITE A 50\<newline>COMMIT\<newline>''"
  have "id_op ?p1 \<noteq> id_op ?p2 \<and> contains (id_op ?p1) (id_op ?p2) \<and>
     handle ?p2 True [] = (?f, None) \<and> ?f = ?f \<and>
     \<not> already_committed [] ?p1 \<and> already_committed ?f ?p1"
    by code_simp
  then show ?thesis by blast
qed

text \<open>
  C2. A Withdraw that fails for insufficient funds closes with a COMMIT line that
  carries the message. \<^verbatim>\<open>already_committed\<close> compares the stripped line with the bare
  word \<^verbatim>\<open>COMMIT\<close>, so it answers false on that journal, and a second \<^verbatim>\<open>handle\<close> of
  the same operation runs again and logs BEGIN, READ and COMMIT a second time.
\<close>

theorem error_commit_not_recognised:
  "handle (WithdrawOp (PyInt 1) ''A'' 5) True [] =
     (''BEGIN wit_1_A_5\<newline>READ A 0\<newline>COMMIT ERROR: insufficient funds: 0 < 5\<newline>'', None) \<and>
   \<not> already_committed
       ''BEGIN wit_1_A_5\<newline>READ A 0\<newline>COMMIT ERROR: insufficient funds: 0 < 5\<newline>''
       (WithdrawOp (PyInt 1) ''A'' 5) \<and>
   handle (WithdrawOp (PyInt 1) ''A'' 5) True
       ''BEGIN wit_1_A_5\<newline>READ A 0\<newline>COMMIT ERROR: insufficient funds: 0 < 5\<newline>'' =
     (''BEGIN wit_1_A_5\<newline>READ A 0\<newline>COMMIT ERROR: insufficient funds: 0 < 5\<newline>BEGIN wit_1_A_5\<newline>READ A 0\<newline>COMMIT ERROR: insufficient funds: 0 < 5\<newline>'',
      None)"
  by code_simp

text \<open>
  C1. Calling \<^verbatim>\<open>handle\<close> twice is not the same as calling it once for a Move that
  fails for insufficient funds: the second call appends the three records again.
\<close>

theorem second_handle_appends_again:
  "handle (MoveOp (PyInt 1) ''A'' ''B'' 5) True [] =
     (''BEGIN mov_1_A_B_5\<newline>READ A 0\<newline>COMMIT ERROR: insufficient funds: 0 < 5\<newline>'', None) \<and>
   handle (MoveOp (PyInt 1) ''A'' ''B'' 5) True
       (fst (handle (MoveOp (PyInt 1) ''A'' ''B'' 5) True [])) =
     (''BEGIN mov_1_A_B_5\<newline>READ A 0\<newline>COMMIT ERROR: insufficient funds: 0 < 5\<newline>BEGIN mov_1_A_B_5\<newline>READ A 0\<newline>COMMIT ERROR: insufficient funds: 0 < 5\<newline>'',
      None)"
  by code_simp

text \<open>
  C6. The truncate-and-replace step is not the identity on a journal that ends at its
  last BEGIN: \<^verbatim>\<open>readlines\<close> keeps each line's newline and the step writes
  \<^verbatim>\<open>line + NEWLINE\<close>, so a blank line follows every line, and a second run of the
  step adds more.
\<close>

theorem truncate_and_replace_inserts_blank_lines:
  "truncate_and_replace
     ''BEGIN dep_1_A_5\<newline>READ A 0\<newline>WRITE A 5\<newline>COMMIT\<newline>BEGIN dep_2_A_7\<newline>'' =
     ''BEGIN dep_1_A_5\<newline>\<newline>READ A 0\<newline>\<newline>WRITE A 5\<newline>\<newline>COMMIT\<newline>\<newline>BEGIN dep_2_A_7\<newline>\<newline>'' \<and>
   truncate_and_replace
     ''BEGIN dep_1_A_5\<newline>\<newline>READ A 0\<newline>\<newline>WRITE A 5\<newline>\<newline>COMMIT\<newline>\<newline>BEGIN dep_2_A_7\<newline>\<newline>'' =
     ''BEGIN dep_1_A_5\<newline>\<newline>\<newline>\<newline>READ A 0\<newline>\<newline>\<newline>\<newline>WRITE A 5\<newline>\<newline>\<newline>\<newline>COMMIT\<newline>\<newline>\<newline>\<newline>BEGIN dep_2_A_7\<newline>\<newline>''"
  by code_simp

end
